theory Spec2Isabelle
  imports Main "HOL-Library.List_Lexorder"
begin

section \<open>Python strings\<close>

text \<open>
  A Python \<open>str\<close> is a sequence of Unicode code points, and \<open>len\<close> counts code points.
  The texts handled here contain CJK characters, so a string is modelled as the list of
  its code points.  Python compares strings lexicographically by code point, which is the
  order \<open>List_Lexorder\<close> puts on \<open>nat list\<close>.

  Files are opened in text mode with \<open>encoding="utf-8"\<close>.  UTF-8 is injective on the
  strings it can encode, so a file's contents are represented by the string written to
  it.  Writing raises \<open>UnicodeEncodeError\<close> for a string with a surrogate code point;
  on POSIX, where \<open>os.linesep\<close> is \<open>'\n'\<close>, writing changes nothing else.  Reading
  translates every \<open>'\r\n'\<close> and every remaining \<open>'\r'\<close> into \<open>'\n'\<close> (universal
  newlines, the default \<open>newline=None\<close>).
\<close>

type_synonym pystr = "nat list"

text \<open>An ASCII literal of the source, as code points.\<close>

definition ascii :: "string \<Rightarrow> pystr" where
  "ascii s = map of_char s"

definition newline :: nat where
  "newline = 10"

text \<open>A string that UTF-8 can encode: none of its code points is a surrogate.\<close>

definition encodable :: "pystr \<Rightarrow> bool" where
  "encodable s = list_all (\<lambda>c. \<not> (55296 \<le> c \<and> c \<le> 57343)) s"

text \<open>What \<open>read()\<close> returns for a text file with the contents \<open>s\<close>: code point 13 is \<open>'\r'\<close>.\<close>

fun universal_newlines :: "pystr \<Rightarrow> pystr" where
  "universal_newlines [] = []"
| "universal_newlines [c] = (if c = 13 then [10] else [c])"
| "universal_newlines (c # d # cs) =
     (if c = 13 \<and> d = 10 then 10 # universal_newlines cs
      else if c = 13 then 10 # universal_newlines (d # cs)
      else c # universal_newlines (d # cs))"

text \<open>\<open>s.split('\n')\<close>: cuts at every newline; never returns the empty list.\<close>

fun str_split :: "pystr \<Rightarrow> pystr list" where
  "str_split [] = [[]]"
| "str_split (c # cs) =
     (if c = newline then [] # str_split cs
      else (case str_split cs of
              [] \<Rightarrow> [[c]]
            | p # ps \<Rightarrow> (c # p) # ps))"

text \<open>\<open>'\n'.join(parts)\<close>.\<close>

fun str_join :: "pystr list \<Rightarrow> pystr" where
  "str_join [] = []"
| "str_join [p] = p"
| "str_join (p # q # ps) = p @ newline # str_join (q # ps)"

text \<open>\<open>str(n)\<close> for a non-negative and for an arbitrary Python int.\<close>

fun str_nat :: "nat \<Rightarrow> pystr" where
  "str_nat n = (if n < 10 then [48 + n] else str_nat (n div 10) @ [48 + n mod 10])"

definition str_int :: "int \<Rightarrow> pystr" where
  "str_int i = (if i < 0 then 45 # str_nat (nat (- i)) else str_nat (nat i))"

text \<open>
  \<open>s.zfill(width)\<close>: pads with \<open>'0'\<close> on the left up to \<open>width\<close>; a leading sign stays
  in front of the padding.
\<close>

definition zfill :: "pystr \<Rightarrow> nat \<Rightarrow> pystr" where
  "zfill s width =
     (if width \<le> length s then s
      else (case s of
              [] \<Rightarrow> replicate width 48
            | c # cs \<Rightarrow>
                if c = 43 \<or> c = 45 then c # replicate (width - length s) 48 @ cs
                else replicate (width - length s) 48 @ s))"

text \<open>The format spec \<open>{n:03d}\<close> applied to a non-negative int.\<close>

definition format_03d :: "nat \<Rightarrow> pystr" where
  "format_03d n = replicate (3 - length (str_nat n)) 48 @ str_nat n"

text \<open>
  \<open>s.strip()\<close>: removes leading and trailing whitespace, where whitespace is what
  \<open>str.isspace\<close> accepts.
\<close>

definition isspace :: "nat \<Rightarrow> bool" where
  "isspace c =
     (c \<in> set [9, 10, 11, 12, 13, 28, 29, 30, 31, 32, 133, 160, 5760,
                8232, 8233, 8239, 8287, 12288]
      \<or> (8192 \<le> c \<and> c \<le> 8202))"

definition strip :: "pystr \<Rightarrow> pystr" where
  "strip s = rev (dropWhile isspace (rev (dropWhile isspace s)))"

text \<open>\<open>os.path.join(a, b)\<close> with the POSIX separator \<open>'/'\<close> (code point 47).\<close>

definition path_join :: "pystr \<Rightarrow> pystr \<Rightarrow> pystr" where
  "path_join a b =
     (if b \<noteq> [] \<and> hd b = 47 then b
      else if a = [] \<or> last a = 47 then a @ b
      else a @ 47 # b)"

text \<open>
  The exceptions that matter.  A document whose range is empty is not an exception in
  the source: the driver prints a message and goes on to the next document; the name
  \<open>InvalidRangeError\<close> stands for that outcome.
\<close>

datatype error =
  InvalidRangeError | ZeroDivisionError | FileNotFoundError | PersistenceError
  | UnicodeEncodeError

section \<open>epub_parse.py: split_content\<close>

text \<open>
  The \<open>for para in paragraphs\<close> loop of \<open>split_content\<close>, with its three loop variables
  \<open>chunks\<close>, \<open>current_chunk\<close> and \<open>current_size\<close>.  \<open>chunk_size\<close> is a Python int.
\<close>

fun split_loop ::
  "int \<Rightarrow> pystr list \<Rightarrow> pystr list \<Rightarrow> pystr list \<Rightarrow> int \<Rightarrow> pystr list \<times> pystr list \<times> int" where
  "split_loop chunk_size [] chunks current_chunk current_size =
     (chunks, current_chunk, current_size)"
| "split_loop chunk_size (para # paragraphs) chunks current_chunk current_size =
     (let para_size = int (length para) in
      if current_size + para_size > chunk_size \<and> current_chunk \<noteq> []
      then split_loop chunk_size paragraphs (chunks @ [str_join current_chunk]) [para] para_size
      else split_loop chunk_size paragraphs chunks (current_chunk @ [para])
             (current_size + para_size))"

definition split_content :: "pystr \<Rightarrow> int \<Rightarrow> pystr list" where
  "split_content text chunk_size =
     (case split_loop chunk_size (str_split text) [] [] 0 of
        (chunks, current_chunk, current_size) \<Rightarrow>
          if current_chunk \<noteq> [] then chunks @ [str_join current_chunk] else chunks)"

text \<open>
  The bound as the specification words it: a chunk is at most \<open>S\<close> characters long,
  unless it is exactly one paragraph that is itself longer than \<open>S\<close>.
\<close>

definition spec_chunk_bound :: "pystr \<Rightarrow> int \<Rightarrow> bool" where
  "spec_chunk_bound c S =
     (int (length c) \<le> S \<or> (length (str_split c) = 1 \<and> S < int (length c)))"

text \<open>
  The bound the loop keeps: \<open>current_size\<close> adds up paragraph lengths only, so the
  newlines that join the paragraphs of a chunk are not counted.
\<close>

definition chunk_bound :: "pystr \<Rightarrow> int \<Rightarrow> bool" where
  "chunk_bound c S =
     (int (length c) - int (count_list c newline) \<le> S
      \<or> (length (str_split c) = 1 \<and> S < int (length c)))"

text \<open>The chunks a loop state stands for: the closed chunks followed by the open buffer.\<close>

definition pending :: "pystr list \<Rightarrow> pystr list \<Rightarrow> pystr list" where
  "pending chunks current_chunk =
     (if current_chunk \<noteq> [] then chunks @ [str_join current_chunk] else chunks)"

definition no_newline :: "pystr list \<Rightarrow> bool" where
  "no_newline ps = (\<forall>p\<in>set ps. newline \<notin> set p)"

section \<open>pdf_parse.py: parse_pdf\<close>

text \<open>The characters of the literal \<open>'\<dots>.!?'\<close> that end a sentence: U+3002, U+FF01, U+FF1F and the ASCII marks.\<close>

definition terminal_marks :: "nat list" where
  "terminal_marks = [12290, 65281, 65311, 46, 33, 63]"

text \<open>
  First pass: \<open>page.get_text()\<close> either returns the page's text (\<open>Some\<close>) or raises
  (\<open>None\<close>); the handler appends the empty string as a placeholder.
\<close>

definition collect_pages :: "pystr option list \<Rightarrow> pystr list" where
  "collect_pages doc =
     map (\<lambda>page. case page of Some text \<Rightarrow> strip text | None \<Rightarrow> []) doc"

definition last_paragraph :: "pystr \<Rightarrow> pystr" where
  "last_paragraph prev_text =
     (let prev_paragraphs = str_split prev_text in
      if prev_paragraphs \<noteq> [] then last prev_paragraphs else [])"

definition first_paragraph :: "pystr \<Rightarrow> pystr" where
  "first_paragraph next_text =
     (let next_paragraphs = str_split next_text in
      if next_paragraphs \<noteq> [] then hd next_paragraphs else [])"

text \<open>
  The first \<open>if\<close> of the second pass.  \<open>all_pages_text\<close> is never written to in the
  second pass, so \<open>prev_text\<close> is the text of the previous page as the first pass left it.
\<close>

definition prepend_step :: "pystr list \<Rightarrow> nat \<Rightarrow> pystr \<Rightarrow> pystr" where
  "prepend_step all_pages_text page_num current_text =
     (if page_num > 0 \<and> current_text \<noteq> [] \<and> all_pages_text ! (page_num - 1) \<noteq> [] then
        (let prev_text = all_pages_text ! (page_num - 1) in
         if prev_text \<noteq> [] \<and> last prev_text \<notin> set terminal_marks then
           (let lastp = last_paragraph prev_text in
            if lastp \<noteq> [] then lastp @ current_text else current_text)
         else current_text)
      else current_text)"

text \<open>The second \<open>if\<close> of the second pass; \<open>total_pages\<close> is \<open>len(doc)\<close>.\<close>

definition append_step :: "pystr list \<Rightarrow> nat \<Rightarrow> pystr \<Rightarrow> pystr" where
  "append_step all_pages_text page_num current_text =
     (if int page_num < int (length all_pages_text) - 1 \<and> current_text \<noteq> []
         \<and> all_pages_text ! (page_num + 1) \<noteq> [] then
        (let next_text = all_pages_text ! (page_num + 1) in
         if current_text \<noteq> [] \<and> last current_text \<notin> set terminal_marks then
           (let firstp = first_paragraph next_text in
            if firstp \<noteq> [] then current_text @ firstp else current_text)
         else current_text)
      else current_text)"

text \<open>The value of \<open>current_text\<close> when \<open>page_data\<close> is built, for \<open>page_num < len(doc)\<close>.\<close>

definition reconcile_page :: "pystr list \<Rightarrow> nat \<Rightarrow> pystr" where
  "reconcile_page all_pages_text page_num =
     append_step all_pages_text page_num
       (prepend_step all_pages_text page_num (all_pages_text ! page_num))"

text \<open>The dictionary \<open>page_data\<close>; the field \<open>json_k\<close> is its key \<open>k\<close>.\<close>

record page_data =
  json_page_number :: nat
  json_content :: pystr
  json_source_pdf :: pystr
  json_total_pages :: nat

text \<open>
  What can go wrong while one page is saved: nothing; something inside the \<open>try\<close> block
  raises, and the handler saves the page with empty content; or the handler's own
  write raises as well, and the exception leaves \<open>parse_pdf\<close>.
\<close>

datatype page_fault = NoFault | TryFault | HandlerFault

definition page_file :: "pystr \<Rightarrow> nat \<Rightarrow> nat \<Rightarrow> pystr" where
  "page_file pdf_output_dir page_number_width page_num =
     path_join pdf_output_dir
       (ascii ''page_'' @ zfill (str_nat (page_num + 1)) page_number_width @ ascii ''.json'')"

text \<open>
  Second pass, over \<open>range(total_pages)\<close>.  Every \<open>json.dump\<close> that completes is logged
  as the pair of the file written and the record written to it.
\<close>

fun save_pages ::
  "(nat \<Rightarrow> page_fault) \<Rightarrow> pystr \<Rightarrow> pystr \<Rightarrow> pystr list \<Rightarrow> nat list \<Rightarrow>
   (pystr \<times> page_data) list \<Rightarrow> error + (pystr \<times> page_data) list" where
  "save_pages fault pdf_name pdf_output_dir all_pages_text [] saved = Inr saved"
| "save_pages fault pdf_name pdf_output_dir all_pages_text (page_num # rest) saved =
     (let total_pages = length all_pages_text;
          page_number_width = length (str_nat total_pages);
          output_file = page_file pdf_output_dir page_number_width page_num
      in case fault page_num of
           NoFault \<Rightarrow>
             save_pages fault pdf_name pdf_output_dir all_pages_text rest
               (saved @ [(output_file,
                  \<lparr>json_page_number = page_num + 1,
                   json_content = reconcile_page all_pages_text page_num,
                   json_source_pdf = pdf_name, json_total_pages = total_pages\<rparr>)])
         | TryFault \<Rightarrow>
             save_pages fault pdf_name pdf_output_dir all_pages_text rest
               (saved @ [(output_file,
                  \<lparr>json_page_number = page_num + 1, json_content = [],
                   json_source_pdf = pdf_name, json_total_pages = total_pages\<rparr>)])
         | HandlerFault \<Rightarrow> Inl PersistenceError)"

definition parse_pdf ::
  "(nat \<Rightarrow> page_fault) \<Rightarrow> pystr option list \<Rightarrow> pystr \<Rightarrow> pystr \<Rightarrow>
   error + (pystr \<times> page_data) list" where
  "parse_pdf fault doc pdf_name output_dir =
     (let pdf_output_dir = path_join output_dir pdf_name;
          all_pages_text = collect_pages doc
      in save_pages fault pdf_name pdf_output_dir all_pages_text
           [0 ..< length all_pages_text] [])"

text \<open>
  The log entry for one page when the handler's write does not fail: the record has
  empty content if the \<open>try\<close> block raised, the reconciled text otherwise.
\<close>

definition saved_record ::
  "(nat \<Rightarrow> page_fault) \<Rightarrow> pystr \<Rightarrow> pystr \<Rightarrow> pystr list \<Rightarrow> nat \<Rightarrow> pystr \<times> page_data" where
  "saved_record fault pdf_name pdf_output_dir all_pages_text page_num =
     (page_file pdf_output_dir (length (str_nat (length all_pages_text))) page_num,
      \<lparr>json_page_number = page_num + 1,
       json_content = (if fault page_num = TryFault then []
                       else reconcile_page all_pages_text page_num),
       json_source_pdf = pdf_name, json_total_pages = length all_pages_text\<rparr>)"

text \<open>Reading a run of ASCII digits back as a number.\<close>

definition digits_value :: "pystr \<Rightarrow> nat" where
  "digits_value ds = foldl (\<lambda>acc d. 10 * acc + (d - 48)) 0 ds"

section \<open>extract_literary.py: the page range of process_pages\<close>

text \<open>
  \<open>actual_start\<close> and \<open>actual_end\<close> as \<open>process_pages\<close> computes them from the optional
  \<open>start_page\<close> and \<open>end_page\<close> and from \<open>total_pages = len(page_files)\<close>, and the test
  that skips the document.
\<close>

definition resolve_range :: "int option \<Rightarrow> int option \<Rightarrow> int \<Rightarrow> error + int \<times> int" where
  "resolve_range start_page end_page total_pages =
     (let actual_start = (case start_page of None \<Rightarrow> 1 | Some s \<Rightarrow> max 1 (min s total_pages));
          actual_end = (case end_page of None \<Rightarrow> total_pages | Some e \<Rightarrow> min e total_pages)
      in if actual_start > actual_end then Inl InvalidRangeError
         else Inr (actual_start, actual_end))"

text \<open>
  Range resolution as the specification words it: both requested bounds are clamped
  into \<open>[1, totalUnits]\<close>, and resolution fails exactly when the clamped start exceeds
  the clamped end.
\<close>

definition spec_clamp :: "int \<Rightarrow> int \<Rightarrow> int" where
  "spec_clamp total_units x = max 1 (min x total_units)"

definition spec_resolve :: "int option \<Rightarrow> int option \<Rightarrow> int \<Rightarrow> error + int \<times> int" where
  "spec_resolve requested_start requested_end total_units =
     (let clamped_start = spec_clamp total_units (case requested_start of None \<Rightarrow> 1 | Some s \<Rightarrow> s);
          clamped_end = spec_clamp total_units
                  (case requested_end of None \<Rightarrow> total_units | Some e \<Rightarrow> e)
      in if clamped_start > clamped_end then Inl InvalidRangeError
         else Inr (clamped_start, clamped_end))"

section \<open>extract_literary.py: OutputManager\<close>

text \<open>
  The files of the output directory: a map from a path to the contents of the file at
  that path.  Directories (\<open>os.makedirs\<close>) are not part of the map.
\<close>

type_synonym files = "pystr \<rightharpoonup> pystr"

text \<open>The attributes of an \<open>OutputManager\<close>; the field \<open>self_a\<close> is \<open>self.a\<close>.\<close>

record OutputManager =
  self_output_dir :: pystr
  self_pdf_name :: pystr
  self_dump_interval :: int
  self_current_batch :: "(int \<times> pystr) list"
  self_batch_count :: nat
  self_temp_files :: "pystr list"
  self_pdf_output_dir :: pystr

definition init :: "pystr \<Rightarrow> pystr \<Rightarrow> int \<Rightarrow> OutputManager" where
  "init output_dir pdf_name dump_interval =
     \<lparr>self_output_dir = output_dir, self_pdf_name = pdf_name,
      self_dump_interval = dump_interval, self_current_batch = [],
      self_batch_count = 0, self_temp_files = [],
      self_pdf_output_dir = path_join output_dir pdf_name\<rparr>"

definition add_content :: "OutputManager \<Rightarrow> int \<Rightarrow> pystr \<Rightarrow> OutputManager" where
  "add_content self page_number content =
     (if content \<noteq> []
      then self\<lparr>self_current_batch := self_current_batch self @ [(page_number, content)]\<rparr>
      else self)"

text \<open>
  The loop of \<open>_write_batch\<close>: for every pair it writes the header line
  \<open>"\n=== \<dots>{page_num}\<dots> ===\n"\<close> (with U+7B2C before and U+9875 after the number),
  the content and a newline.  The header can always be encoded; \<open>f.write(content)\<close>
  raises if the content cannot.  \<open>written\<close> is what has been written so far.
\<close>

fun write_sections :: "(int \<times> pystr) list \<Rightarrow> pystr \<Rightarrow> error + pystr" where
  "write_sections [] written = Inr written"
| "write_sections ((page_num, content) # rest) written =
     (if encodable content
      then write_sections rest
             (written
              @ ([10] @ ascii ''=== '' @ [31532] @ str_int page_num @ [39029]
                   @ ascii '' ==='' @ [10])
              @ content @ [10])
      else Inl UnicodeEncodeError)"

text \<open>
  \<open>_write_batch\<close>: opens the file with mode \<open>"w"\<close> and runs the loop over the batch
  sorted by page number (Python's \<open>sorted\<close> is stable, as \<open>sort_key\<close> is).  An
  exception leaves the function; the files are then not looked at any more.
\<close>

definition write_batch :: "files \<Rightarrow> pystr \<Rightarrow> (int \<times> pystr) list \<Rightarrow> error + files" where
  "write_batch fs filename batch =
     (case write_sections (sort_key fst batch) [] of
        Inl e \<Rightarrow> Inl e
      | Inr written \<Rightarrow> Inr (fs(filename \<mapsto> written)))"

definition temp_file_name :: "pystr \<Rightarrow> nat \<Rightarrow> pystr" where
  "temp_file_name pdf_output_dir batch_count =
     path_join pdf_output_dir
       (ascii ''temp_batch_'' @ format_03d batch_count @ ascii ''.txt'')"

text \<open>What \<open>path_join\<close> puts in front of a relative file name.\<close>

definition dir_prefix :: "pystr \<Rightarrow> pystr" where
  "dir_prefix a = (if a = [] \<or> last a = 47 then a else a @ [47])"

definition dump_interval_batch ::
  "OutputManager \<Rightarrow> files \<Rightarrow> error + OutputManager \<times> files" where
  "dump_interval_batch self fs =
     (if self_current_batch self = [] then Inr (self, fs)
      else
        (let batch_count = self_batch_count self + 1;
             temp_file = temp_file_name (self_pdf_output_dir self) batch_count
         in case write_batch fs temp_file (self_current_batch self) of
              Inl e \<Rightarrow> Inl e
            | Inr fs1 \<Rightarrow>
                Inr (self\<lparr>self_batch_count := batch_count,
                         self_temp_files := self_temp_files self @ [temp_file],
                         self_current_batch := []\<rparr>,
                     fs1)))"

definition output_file_name :: "OutputManager \<Rightarrow> pystr \<Rightarrow> pystr" where
  "output_file_name self page_range =
     path_join (self_pdf_output_dir self)
       (self_pdf_name self @ page_range @ ascii ''_literary.txt'')"

text \<open>
  The loop of \<open>merge_and_cleanup\<close> over the sorted temporary files: each one is opened
  with mode \<open>"r"\<close> (a missing file raises) and read, with universal newlines; what
  was read is written to the output file, which is open for writing; and the temporary
  file is removed.  What \<open>read()\<close> returns was decoded from UTF-8, so writing it does
  not raise.
\<close>

fun merge_loop :: "pystr \<Rightarrow> pystr list \<Rightarrow> files \<Rightarrow> error + files" where
  "merge_loop output_file [] fs = Inr fs"
| "merge_loop output_file (temp_file # rest) fs =
     (case fs temp_file of
        None \<Rightarrow> Inl FileNotFoundError
      | Some data \<Rightarrow>
          merge_loop output_file rest
            ((fs(output_file \<mapsto>
                   (case fs output_file of None \<Rightarrow> [] | Some old \<Rightarrow> old)
                   @ universal_newlines data))
               (temp_file := None)))"

definition merge_and_cleanup ::
  "OutputManager \<Rightarrow> files \<Rightarrow> pystr \<Rightarrow> error + OutputManager \<times> files" where
  "merge_and_cleanup self fs page_range =
     (if self_temp_files self = [] \<and> self_current_batch self = [] then Inr (self, fs)
      else
        (case (if self_current_batch self \<noteq> [] then dump_interval_batch self fs
               else Inr (self, fs)) of
           Inl e \<Rightarrow> Inl e
         | Inr (self1, fs1) \<Rightarrow>
             (let output_file = output_file_name self1 page_range in
              case merge_loop output_file (sort (self_temp_files self1))
                     (fs1(output_file \<mapsto> [])) of
                Inl e \<Rightarrow> Inl e
              | Inr fs2 \<Rightarrow> Inr (self1\<lparr>self_temp_files := []\<rparr>, fs2))))"

text \<open>
  \<open>append_to_file\<close>: opens the output file with mode \<open>"a"\<close> and writes the header
  line, the content and a newline; \<open>f.write(content)\<close> raises if the content cannot be
  encoded.
\<close>

definition append_to_file ::
  "OutputManager \<Rightarrow> files \<Rightarrow> int \<Rightarrow> pystr \<Rightarrow> pystr \<Rightarrow> error + files" where
  "append_to_file self fs page_number content page_range =
     (if content = [] then Inr fs
      else
        (let output_file = output_file_name self page_range in
         if encodable content
         then Inr (fs(output_file \<mapsto>
                (case fs output_file of None \<Rightarrow> [] | Some old \<Rightarrow> old)
                @ ([10] @ ascii ''=== '' @ [31532] @ str_int page_number @ [39029]
                     @ ascii '' ==='' @ [10])
                @ content @ [10]))
         else Inl UnicodeEncodeError))"

section \<open>extract_literary.py: the page loop of process_pages\<close>

text \<open>
  The loop \<open>for current_page in range(actual_start, actual_end + 1)\<close> is modelled over
  the list of its extraction results: one pair \<open>(current_page, literary_sentences)\<close>
  for every page of the range that has a file, in the order of the iterations.

  Batch mode: \<open>pages_processed % dump_interval\<close> raises for the interval 0; Python's
  \<open>%\<close> on ints is \<open>mod\<close> on \<open>int\<close>, also for a negative interval.  Nothing in
  \<open>process_pages\<close> catches an exception raised in the loop.
\<close>

fun batch_loop ::
  "int \<Rightarrow> (int \<times> pystr) list \<Rightarrow> int \<Rightarrow> OutputManager \<Rightarrow> files \<Rightarrow>
   error + OutputManager \<times> files" where
  "batch_loop dump_interval [] pages_processed output_manager fs = Inr (output_manager, fs)"
| "batch_loop dump_interval ((current_page, literary_sentences) # rest) pages_processed
     output_manager fs =
     (let output_manager1 = add_content output_manager current_page literary_sentences;
          pages_processed1 = pages_processed + 1
      in if dump_interval = 0 then Inl ZeroDivisionError
         else if pages_processed1 mod dump_interval = 0 then
           (case dump_interval_batch output_manager1 fs of
              Inl e \<Rightarrow> Inl e
            | Inr (output_manager2, fs2) \<Rightarrow>
                batch_loop dump_interval rest pages_processed1 output_manager2 fs2)
         else batch_loop dump_interval rest pages_processed1 output_manager1 fs)"

text \<open>Append mode.\<close>

fun append_loop ::
  "pystr \<Rightarrow> (int \<times> pystr) list \<Rightarrow> OutputManager \<Rightarrow> files \<Rightarrow> error + files" where
  "append_loop page_range [] output_manager fs = Inr fs"
| "append_loop page_range ((current_page, literary_sentences) # rest) output_manager fs =
     (case append_to_file output_manager fs current_page literary_sentences page_range of
        Inl e \<Rightarrow> Inl e
      | Inr fs1 \<Rightarrow> append_loop page_range rest output_manager fs1)"

text \<open>
  One document in one storage mode: the manager is created, the loop runs, and in
  batch mode \<open>merge_and_cleanup\<close> follows.  The result is the file map afterwards.
\<close>

datatype storage_mode = Append | Batch

definition process_document ::
  "storage_mode \<Rightarrow> int \<Rightarrow> pystr \<Rightarrow> pystr \<Rightarrow> pystr \<Rightarrow> (int \<times> pystr) list \<Rightarrow> files \<Rightarrow>
   error + files" where
  "process_document mode dump_interval output_dir pdf_dir page_range results fs =
     (let output_manager = init output_dir pdf_dir dump_interval in
      case mode of
        Append \<Rightarrow> append_loop page_range results output_manager fs
      | Batch \<Rightarrow>
          (case batch_loop dump_interval results 0 output_manager fs of
             Inl e \<Rightarrow> Inl e
           | Inr (output_manager1, fs1) \<Rightarrow>
               (case merge_and_cleanup output_manager1 fs1 page_range of
                  Inl e \<Rightarrow> Inl e
                | Inr (output_manager2, fs2) \<Rightarrow> Inr fs2)))"

text \<open>
  The text of a list of results as one section per result, in list order: header line,
  extracted text, newline.
\<close>

definition section_text :: "int \<times> pystr \<Rightarrow> pystr" where
  "section_text r =
     [10] @ ascii ''=== '' @ [31532] @ str_int (fst r) @ [39029] @ ascii '' ==='' @ [10]
     @ snd r @ [10]"

definition sections :: "(int \<times> pystr) list \<Rightarrow> pystr" where
  "sections rs = concat (map section_text rs)"

text \<open>
  The batches that the counter of the loop cuts the non-empty results into: a batch is
  closed after every iteration whose count is a multiple of the interval, if it holds
  anything; what is left at the end is the last batch.
\<close>

fun flushes ::
  "int \<Rightarrow> (int \<times> pystr) list \<Rightarrow> int \<Rightarrow> (int \<times> pystr) list \<Rightarrow>
   (int \<times> pystr) list list \<times> (int \<times> pystr) list" where
  "flushes d [] pp cur = ([], cur)"
| "flushes d (r # rs) pp cur =
     (let cur1 = (if snd r \<noteq> [] then cur @ [r] else cur) in
      if (pp + 1) mod d = 0 \<and> cur1 \<noteq> []
      then (case flushes d rs (pp + 1) [] of (bs, c) \<Rightarrow> (cur1 # bs, c))
      else flushes d rs (pp + 1) cur1)"

definition batches :: "int \<Rightarrow> (int \<times> pystr) list \<Rightarrow> (int \<times> pystr) list list" where
  "batches d rs = (case flushes d rs 0 [] of (bs, c) \<Rightarrow> if c = [] then bs else bs @ [c])"

text \<open>
  The state of a manager that has closed the batches \<open>closed\<close>, in this order, in the
  directory \<open>D\<close>: its counter, its list of temporary files, and the contents of these
  files.
\<close>

definition flushed :: "pystr \<Rightarrow> OutputManager \<Rightarrow> files \<Rightarrow> (int \<times> pystr) list list \<Rightarrow> bool" where
  "flushed D self fs closed =
     (self_pdf_output_dir self = D
      \<and> self_batch_count self = length closed
      \<and> self_temp_files self = map (\<lambda>j. temp_file_name D (Suc j)) [0 ..< length closed]
      \<and> (\<forall>j<length closed.
            fs (temp_file_name D (Suc j)) = Some (sections (sort_key fst (closed ! j)))))"

text \<open>
  The results the loop hands over for the range from \<open>actual_start\<close> to \<open>actual_end\<close>:
  \<open>extract\<close> gives the extracted sentences of a page that has a file, and \<open>None\<close> for a
  page that has none (the loop warns and goes on).  The suffix \<open>page_range\<close> of the
  output file's name is \<open>"_pages_{actual_start}-{actual_end}"\<close>.
\<close>

definition extraction_results :: "(int \<rightharpoonup> pystr) \<Rightarrow> int \<Rightarrow> int \<Rightarrow> (int \<times> pystr) list" where
  "extraction_results extract actual_start actual_end =
     concat (map (\<lambda>current_page.
                    case extract current_page of
                      None \<Rightarrow> []
                    | Some literary_sentences \<Rightarrow> [(current_page, literary_sentences)])
                 [actual_start .. actual_end])"

definition page_range_suffix :: "int \<Rightarrow> int \<Rightarrow> pystr" where
  "page_range_suffix actual_start actual_end =
     ascii ''_pages_'' @ str_int actual_start @ [45] @ str_int actual_end"

text \<open>The path of the final output file of a document, and the file found there after a run.\<close>

definition final_file :: "pystr \<Rightarrow> pystr \<Rightarrow> pystr \<Rightarrow> pystr" where
  "final_file output_dir pdf_dir page_range =
     path_join (path_join output_dir pdf_dir) (pdf_dir @ page_range @ ascii ''_literary.txt'')"

definition final_output ::
  "storage_mode \<Rightarrow> int \<Rightarrow> pystr \<Rightarrow> pystr \<Rightarrow> pystr \<Rightarrow> (int \<times> pystr) list \<Rightarrow> files \<Rightarrow>
   error + pystr option" where
  "final_output mode dump_interval output_dir pdf_dir page_range results fs =
     (case process_document mode dump_interval output_dir pdf_dir page_range results fs of
        Inl e \<Rightarrow> Inl e
      | Inr fs' \<Rightarrow> Inr (fs' (final_file output_dir pdf_dir page_range)))"

section \<open>extract_literary.py: process_pages\<close>

text \<open>
  A directory of \<open>sep_pages\<close>: its name, the number of its page files, and for every
  page number what the extractor returns for the page with that number, if there is
  one.
\<close>

record document =
  doc_pdf_dir :: pystr
  doc_total_pages :: nat
  doc_extract :: "int \<rightharpoonup> pystr"

text \<open>
  The loop of \<open>process_pages\<close> over the documents.  A document without page files and
  a document whose range is empty are skipped with \<open>continue\<close>; an exception raised
  while a document is processed leaves the function.
\<close>

fun process_pages ::
  "int option \<Rightarrow> int option \<Rightarrow> storage_mode \<Rightarrow> int \<Rightarrow> pystr \<Rightarrow> document list \<Rightarrow> files \<Rightarrow>
   error + files" where
  "process_pages start_page end_page mode dump_interval output_dir [] fs = Inr fs"
| "process_pages start_page end_page mode dump_interval output_dir (doc # docs) fs =
     (if doc_total_pages doc = 0
      then process_pages start_page end_page mode dump_interval output_dir docs fs
      else
        (case resolve_range start_page end_page (int (doc_total_pages doc)) of
           Inl e \<Rightarrow> process_pages start_page end_page mode dump_interval output_dir docs fs
         | Inr (actual_start, actual_end) \<Rightarrow>
             (case process_document mode dump_interval output_dir (doc_pdf_dir doc)
                     (page_range_suffix actual_start actual_end)
                     (extraction_results (doc_extract doc) actual_start actual_end) fs of
                Inl e \<Rightarrow> Inl e
              | Inr fs' \<Rightarrow>
                  process_pages start_page end_page mode dump_interval output_dir docs fs')))"

section \<open>Proof setup\<close>

declare str_nat.simps [simp del]

section \<open>Facts about splitting and joining\<close>

lemma str_split_not_Nil: "str_split t \<noteq> []"
  by (induction t) (auto split: list.splits)

lemma str_join_str_split: "str_join (str_split t) = t"
proof (induction t)
  case Nil
  show ?case by simp
next
  case (Cons c cs)
  obtain p ps where sp: "str_split cs = p # ps"
    using str_split_not_Nil [of cs] by (cases "str_split cs") auto
  show ?case
  proof (cases "c = newline")
    case True
    with Cons sp show ?thesis by simp
  next
    case False
    with Cons sp show ?thesis by (cases ps) auto
  qed
qed

lemma str_join_append:
  "xs \<noteq> [] \<Longrightarrow> ys \<noteq> [] \<Longrightarrow> str_join (xs @ ys) = str_join xs @ newline # str_join ys"
proof (induction xs rule: str_join.induct)
  case 1
  then show ?case by simp
next
  case (2 p)
  then show ?case by (cases ys) auto
next
  case (3 p q ps)
  then show ?case by simp
qed

lemma str_join_snoc:
  "xs \<noteq> [] \<Longrightarrow> str_join (xs @ [y]) = str_join xs @ newline # y"
  using str_join_append [of xs "[y]"] by simp

lemma length_str_split: "length (str_split t) = Suc (count_list t newline)"
proof (induction t)
  case Nil
  show ?case by simp
next
  case (Cons c cs)
  then show ?case using str_split_not_Nil [of cs]
    by (cases "str_split cs") auto
qed

lemma str_split_no_newline: "no_newline (str_split t)"
proof (induction t)
  case Nil
  show ?case by (simp add: no_newline_def)
next
  case (Cons c cs)
  then show ?case using str_split_not_Nil [of cs]
    by (cases "str_split cs") (auto simp: no_newline_def)
qed

lemma count_list_append: "count_list (xs @ ys) a = count_list xs a + count_list ys a"
  by (induction xs) auto

lemma count_list_none: "a \<notin> set xs \<Longrightarrow> count_list xs a = 0"
  by (induction xs) auto

lemma count_str_join:
  "no_newline ps \<Longrightarrow> count_list (str_join ps) newline = length ps - 1"
  by (induction ps rule: str_join.induct)
     (auto simp: no_newline_def count_list_append count_list_none)

lemma length_str_join:
  "length (str_join ps) = sum_list (map length ps) + (length ps - 1)"
  by (induction ps rule: str_join.induct) auto

section \<open>Chunk integrity\<close>

lemma split_loop_text:
  "split_loop S ps chunks cur sz = (chunks', cur', sz') \<Longrightarrow>
   (chunks \<noteq> [] \<longrightarrow> cur \<noteq> []) \<Longrightarrow>
   str_join (pending chunks' cur') =
     (if cur = [] then str_join ps
      else if ps = [] then str_join (pending chunks cur)
      else str_join (pending chunks cur) @ newline # str_join ps)"
proof (induction ps arbitrary: chunks cur sz)
  case Nil
  then show ?case by (auto simp: pending_def)
next
  case (Cons para ps)
  show ?case
  proof (cases "sz + int (length para) > S \<and> cur \<noteq> []")
    case True
    with Cons.prems have run:
      "split_loop S ps (chunks @ [str_join cur]) [para] (int (length para)) = (chunks', cur', sz')"
      by (simp add: Let_def)
    have "str_join (pending chunks' cur') =
        (if ps = [] then str_join (pending (chunks @ [str_join cur]) [para])
         else str_join (pending (chunks @ [str_join cur]) [para]) @ newline # str_join ps)"
      using Cons.IH [OF run] by simp
    moreover have "str_join (pending (chunks @ [str_join cur]) [para]) =
        str_join (pending chunks cur) @ newline # para"
      using True str_join_snoc [of "chunks @ [str_join cur]" para]
      by (simp add: pending_def)
    ultimately show ?thesis
      using True by (cases ps) auto
  next
    case False
    with Cons.prems have run:
      "split_loop S ps chunks (cur @ [para]) (sz + int (length para)) = (chunks', cur', sz')"
      by (auto simp: Let_def)
    have step: "str_join (pending chunks' cur') =
        (if ps = [] then str_join (pending chunks (cur @ [para]))
         else str_join (pending chunks (cur @ [para])) @ newline # str_join ps)"
      using Cons.IH [OF run] Cons.prems(2) by simp
    show ?thesis
    proof (cases "cur = []")
      case True
      with Cons.prems(2) have "chunks = []" by auto
      with True step show ?thesis by (cases ps) (auto simp: pending_def)
    next
      case nonempty: False
      have "str_join (pending chunks (cur @ [para])) =
          str_join (pending chunks cur) @ newline # para"
      proof (cases "chunks = []")
        case True
        with nonempty show ?thesis by (simp add: pending_def str_join_snoc)
      next
        case False
        then show ?thesis
          using nonempty
          by (simp add: pending_def str_join_snoc str_join_append [of chunks "[str_join (cur @ [para])]"]
                str_join_append [of chunks "[str_join cur]"])
      qed
      with step nonempty show ?thesis by (cases ps) auto
    qed
  qed
qed

text \<open>
  C4: for every text and every target size, joining the chunks of \<open>split_content\<close>, in
  order, with the newline separator between consecutive chunks gives back the text:
  nothing is dropped or reordered.
\<close>

theorem split_content_integrity: "str_join (split_content t S) = t"
proof -
  obtain chunks cur sz where run: "split_loop S (str_split t) [] [] 0 = (chunks, cur, sz)"
    by (cases "split_loop S (str_split t) [] [] 0") auto
  have "str_join (pending chunks cur) = str_join (str_split t)"
    using split_loop_text [OF run] by simp
  then show ?thesis
    by (simp add: split_content_def run pending_def str_join_str_split)
qed

section \<open>Chunk bound\<close>

lemma str_join_bound:
  assumes "ps \<noteq> []" and "no_newline ps"
    and "length ps \<le> 1 \<or> int (sum_list (map length ps)) \<le> S"
  shows "chunk_bound (str_join ps) S"
proof (cases "int (sum_list (map length ps)) \<le> S")
  case True
  then show ?thesis
    using assms(1,2) by (simp add: chunk_bound_def count_str_join length_str_join)
next
  case False
  with assms obtain p where ps: "ps = [p]" by (cases ps) auto
  with assms(2) have "newline \<notin> set p" by (simp add: no_newline_def)
  then have "length (str_split p) = 1" by (simp add: length_str_split count_list_none)
  with False ps show ?thesis by (simp add: chunk_bound_def)
qed

lemma split_loop_bound:
  "split_loop S ps chunks cur sz = (chunks', cur', sz') \<Longrightarrow>
   no_newline ps \<Longrightarrow> no_newline cur \<Longrightarrow>
   sz = int (sum_list (map length cur)) \<Longrightarrow>
   length cur \<le> 1 \<or> sz \<le> S \<Longrightarrow>
   \<forall>c\<in>set chunks. chunk_bound c S \<Longrightarrow>
   (\<forall>c\<in>set chunks'. chunk_bound c S) \<and> no_newline cur' \<and>
   (length cur' \<le> 1 \<or> int (sum_list (map length cur')) \<le> S)"
proof (induction ps arbitrary: chunks cur sz)
  case Nil
  then show ?case by auto
next
  case (Cons para ps)
  have np: "no_newline ps" and npara: "newline \<notin> set para"
    using Cons.prems(2) by (auto simp: no_newline_def)
  show ?case
  proof (cases "sz + int (length para) > S \<and> cur \<noteq> []")
    case True
    with Cons.prems(1) have run:
      "split_loop S ps (chunks @ [str_join cur]) [para] (int (length para)) = (chunks', cur', sz')"
      by (simp add: Let_def)
    have closed: "chunk_bound (str_join cur) S"
      using str_join_bound [of cur S] True Cons.prems(3,4,5) by simp
    show ?thesis
      using Cons.IH [OF run np] npara closed Cons.prems(6)
      by (simp add: no_newline_def)
  next
    case False
    with Cons.prems(1) have run:
      "split_loop S ps chunks (cur @ [para]) (sz + int (length para)) = (chunks', cur', sz')"
      by (auto simp: Let_def)
    have "length (cur @ [para]) \<le> 1 \<or> sz + int (length para) \<le> S"
      using False by auto
    then show ?thesis
      using Cons.IH [OF run np] npara Cons.prems(3,4,6)
      by (simp add: no_newline_def)
  qed
qed

text \<open>
  C3, as the code has it: the loop compares the sum of the paragraph lengths with the
  target size and does not count the newlines that join the paragraphs of a chunk
  (the docstring calls the size approximate).  So for every text and every target
  size \<open>S\<close>, every chunk of \<open>split_content\<close> is at most \<open>S\<close> characters long once its
  joining newlines are left out, unless it is exactly one paragraph that is itself
  longer than \<open>S\<close>.
\<close>

theorem split_content_chunk_bound:
  "c \<in> set (split_content t S) \<Longrightarrow> chunk_bound c S"
proof -
  assume c: "c \<in> set (split_content t S)"
  obtain chunks cur sz where run: "split_loop S (str_split t) [] [] 0 = (chunks, cur, sz)"
    by (cases "split_loop S (str_split t) [] [] 0") auto
  have inv: "(\<forall>c\<in>set chunks. chunk_bound c S) \<and> no_newline cur \<and>
      (length cur \<le> 1 \<or> int (sum_list (map length cur)) \<le> S)"
    using split_loop_bound [OF run str_split_no_newline] by (simp add: no_newline_def)
  show ?thesis
  proof (cases "c \<in> set chunks")
    case True
    with inv show ?thesis by simp
  next
    case False
    with c run have "cur \<noteq> []" and "c = str_join cur"
      by (auto simp: split_content_def split: if_splits)
    with inv show ?thesis using str_join_bound [of cur S] by simp
  qed
qed

text \<open>The theorem at the text \<open>"a\nb"\<close> with target size 2, whose only chunk is the text.\<close>

theorem split_content_chunk_bound_witness:
  "[97, 10, 98] \<in> set (split_content [97, 10, 98] 2) \<and> chunk_bound [97, 10, 98] 2"
proof -
  have m: "[97, 10, 98] \<in> set (split_content [97, 10, 98] 2)"
    by (simp add: split_content_def newline_def)
  from split_content_chunk_bound [OF m] m show ?thesis by simp
qed

text \<open>
  The bound on the plain length fails: \<open>"a\nb"\<close> with target size 2 stays one chunk of
  two paragraphs and three characters.
\<close>

theorem split_content_length_counterexample:
  "split_content [97, 10, 98] 2 = [[97, 10, 98]] \<and> \<not> spec_chunk_bound [97, 10, 98] 2"
  by (simp add: split_content_def spec_chunk_bound_def newline_def)

section \<open>Decimal numerals\<close>

lemma str_nat_not_Nil: "str_nat n \<noteq> []"
  by (subst str_nat.simps) simp

lemma hd_str_nat: "48 \<le> hd (str_nat n) \<and> hd (str_nat n) \<le> 57"
proof (induction n rule: str_nat.induct)
  case (1 n)
  show ?case
  proof (cases "n < 10")
    case True
    then show ?thesis by (subst (1 2) str_nat.simps) simp
  next
    case False
    with 1 show ?thesis
      by (subst (1 2) str_nat.simps) (simp add: str_nat_not_Nil)
  qed
qed

lemma digits_value_append:
  "digits_value (ds @ [d]) = 10 * digits_value ds + (d - 48)"
  by (simp add: digits_value_def)

lemma digits_value_str_nat: "digits_value (str_nat n) = n"
proof (induction n rule: str_nat.induct)
  case (1 n)
  show ?case
  proof (cases "n < 10")
    case True
    then show ?thesis by (subst str_nat.simps) (simp add: digits_value_def)
  next
    case False
    with 1 show ?thesis
      by (subst str_nat.simps) (simp add: digits_value_append)
  qed
qed

lemma digits_value_zeros: "digits_value (replicate k 48 @ ds) = digits_value ds"
proof -
  have "foldl (\<lambda>acc d. 10 * acc + (d - 48)) 0 (replicate k (48::nat)) = (0::nat)"
    by (induction k) simp_all
  then show ?thesis by (simp add: digits_value_def)
qed

lemma zfill_str_nat:
  "zfill (str_nat n) w = replicate (w - length (str_nat n)) 48 @ str_nat n"
proof (cases "str_nat n")
  case Nil
  then show ?thesis using str_nat_not_Nil by simp
next
  case (Cons c cs)
  with hd_str_nat [of n] have "c \<noteq> 43" and "c \<noteq> 45" by auto
  with Cons show ?thesis by (simp add: zfill_def)
qed

lemma digits_value_zfill: "digits_value (zfill (str_nat n) w) = n"
  by (simp add: zfill_str_nat digits_value_zeros digits_value_str_nat)

lemma digits_value_format_03d: "digits_value (format_03d n) = n"
  by (simp add: format_03d_def digits_value_zeros digits_value_str_nat)

section \<open>Paths\<close>

lemma path_join_relative:
  "b \<noteq> [] \<Longrightarrow> hd b \<noteq> 47 \<Longrightarrow>
   path_join a b = (if a = [] \<or> last a = 47 then a else a @ [47]) @ b"
  by (simp add: path_join_def)

lemma page_file_inj:
  assumes "page_file dir w m = page_file dir w n"
  shows "m = n"
proof -
  let ?f = "\<lambda>k. ascii ''page_'' @ zfill (str_nat (k + 1)) w @ ascii ''.json''"
  define pre where "pre = (if dir = [] \<or> last dir = 47 then dir else dir @ [47])"
  have "path_join dir (?f k) = pre @ ?f k" for k
    unfolding pre_def by (rule path_join_relative) (simp_all add: ascii_def)
  with assms have "pre @ ?f m = pre @ ?f n"
    by (simp only: page_file_def)
  then have "?f m = ?f n"
    by (simp only: same_append_eq)
  then have "zfill (str_nat (m + 1)) w = zfill (str_nat (n + 1)) w"
    by simp
  then have "digits_value (zfill (str_nat (m + 1)) w) = digits_value (zfill (str_nat (n + 1)) w)"
    by simp
  then show ?thesis by (simp add: digits_value_zfill)
qed

section \<open>Range resolution\<close>

text \<open>
  C2, as the code has it.  For at least one unit, a missing start is 1 and a missing end
  is the number of units; the requested start is clamped into \<open>[1, total]\<close>; the
  requested end is capped at the number of units but is not raised to 1.  So when the
  requested end is absent or at least 1, resolution is what the specification
  describes (both bounds clamped, failure exactly when the clamped start exceeds the
  clamped end), and when the requested end is below 1 the document is skipped.  A
  range that is returned satisfies \<open>1 \<le> start \<le> end \<le> total\<close>; a document whose
  range fails is skipped and the loop goes on with the documents after it; and the
  three examples of the specification hold.
\<close>

theorem resolve_range_amended:
  "1 \<le> total_pages \<Longrightarrow>
   resolve_range s e total_pages =
     (case e of
        None \<Rightarrow> spec_resolve s e total_pages
      | Some x \<Rightarrow> if x < 1 then Inl InvalidRangeError else spec_resolve s e total_pages)
   \<and> (\<forall>a b. resolve_range s e total_pages = Inr (a, b) \<longrightarrow> 1 \<le> a \<and> a \<le> b \<and> b \<le> total_pages)
   \<and> (resolve_range s e (int (doc_total_pages doc)) = Inl InvalidRangeError \<longrightarrow>
        process_pages s e mode d output_dir (doc # docs) fs =
          process_pages s e mode d output_dir docs fs)
   \<and> resolve_range (Some 0) (Some 1000) 10 = Inr (1, 10)
   \<and> resolve_range (Some 3) (Some 2) 10 = Inl InvalidRangeError
   \<and> resolve_range None None 7 = Inr (1, 7)"
  by (auto simp: resolve_range_def spec_resolve_def spec_clamp_def Let_def
           split: option.splits)

text \<open>The theorem at ten units with the requested range 0 to 1000.\<close>

theorem resolve_range_amended_witness:
  "resolve_range (Some 0) (Some 1000) 10 = spec_resolve (Some 0) (Some 1000) 10
   \<and> resolve_range (Some 0) (Some 1000) 10 = Inr (1, 10)"
  using resolve_range_amended [of 10 "Some 0" "Some 1000"]
  by (simp add: spec_resolve_def spec_clamp_def)

text \<open>
  With ten units, no requested start and the requested end 0, the code skips the
  document, while clamping both bounds would give the range from 1 to 1.
\<close>

theorem resolve_range_counterexample:
  "resolve_range None (Some 0) 10 = Inl InvalidRangeError
   \<and> spec_resolve None (Some 0) 10 = Inr (1, 1)"
  by (simp add: resolve_range_def spec_resolve_def spec_clamp_def)

section \<open>Boundary reconciliation\<close>

text \<open>
  C5, as the code has it.  For the three pages U+6625 U+98CE U+5439 U+3002, U+82B1 U+5F00
  and U+4E86 U+3002: page 1 is unchanged, page 2 gets the first paragraph of page 3
  appended, and page 3 gets the last paragraph of page 2 as extracted prepended, since
  the text of page 2 that the second pass reads does not end in a terminal mark.  Pages
  2 and 3 both carry the whole sentence.
\<close>

theorem scenario_reconciled:
  "map (reconcile_page [[26149, 39118, 21561, 12290], [33457, 24320], [20102, 12290]]) [0, 1, 2] =
     [[26149, 39118, 21561, 12290], [33457, 24320, 20102, 12290], [33457, 24320, 20102, 12290]]"
  by (simp add: reconcile_page_def prepend_step_def append_step_def terminal_marks_def
        last_paragraph_def first_paragraph_def newline_def)

text \<open>Page 3 of the scenario does not stay as it was extracted.\<close>

theorem scenario_page3_counterexample:
  "reconcile_page [[26149, 39118, 21561, 12290], [33457, 24320], [20102, 12290]] 2 \<noteq> [20102, 12290]"
  by (simp add: reconcile_page_def prepend_step_def append_step_def terminal_marks_def
        last_paragraph_def first_paragraph_def newline_def)

lemma last_str_split: "last (str_split t) = rev (takeWhile (\<lambda>c. c \<noteq> newline) (rev t))"
proof (induction t)
  case Nil
  show ?case by simp
next
  case (Cons c cs)
  obtain p ps where sp: "str_split cs = p # ps"
    using str_split_not_Nil [of cs] by (cases "str_split cs") auto
  show ?case
  proof (cases "c = newline")
    case True
    with Cons sp show ?thesis by (simp add: takeWhile_append)
  next
    case False
    show ?thesis
    proof (cases "newline \<in> set cs")
      case True
      then have "count_list cs newline \<noteq> 0" by (induction cs) auto
      then have "ps \<noteq> []" using length_str_split [of cs] sp by auto
      with Cons sp False True show ?thesis by (auto simp: takeWhile_append)
    next
      case nonl: False
      then have "count_list cs newline = 0" by (simp add: count_list_none)
      then have ps: "ps = []" using length_str_split [of cs] sp by auto
      have all: "\<forall>x\<in>set (rev cs @ [c]). x \<noteq> newline"
        using nonl False by auto
      have "takeWhile (\<lambda>c. c \<noteq> newline) (rev cs) = rev cs"
        using all by (simp add: takeWhile_eq_all_conv)
      with Cons sp ps have "p = cs" by simp
      then have lhs: "last (str_split (c # cs)) = c # cs"
        using sp ps False by simp
      have tw: "takeWhile (\<lambda>c. c \<noteq> newline) (rev cs @ [c]) = rev cs @ [c]"
        using all by (simp only: takeWhile_eq_all_conv)
      have "rev (takeWhile (\<lambda>c. c \<noteq> newline) (rev (c # cs))) = c # cs"
        by (simp only: rev.simps tw) simp
      with lhs show ?thesis by (simp only:)
    qed
  qed
qed

text \<open>
  C6, as the code has it.  For a page after the first with non-empty text, whose
  predecessor's text is non-empty and does not end in a terminal mark, the page's text
  is prefixed with the last paragraph of the predecessor's text as the first pass
  extracted it (the second pass never stores a corrected text), and the append step
  then runs on the result.  The last paragraph is the text after the final newline, or
  the whole text if there is none.
\<close>

theorem prepend_uses_raw_predecessor:
  assumes "0 < i" and "i < length pages"
    and "pages ! i \<noteq> []" and "pages ! (i - 1) \<noteq> []"
    and "last (pages ! (i - 1)) \<notin> set terminal_marks"
  shows "reconcile_page pages i =
           append_step pages i (last_paragraph (pages ! (i - 1)) @ pages ! i)
         \<and> last_paragraph (pages ! (i - 1)) =
             rev (takeWhile (\<lambda>c. c \<noteq> newline) (rev (pages ! (i - 1))))"
  using assms
  by (simp add: reconcile_page_def prepend_step_def last_paragraph_def Let_def
        str_split_not_Nil last_str_split)

text \<open>The theorem at the two pages \<open>"ab"\<close> and \<open>"c\nd."\<close>, for the second page.\<close>

theorem prepend_uses_raw_predecessor_witness:
  "reconcile_page [[97, 98], [99, 10, 100, 46]] 1 = [97, 98, 99, 10, 100, 46]"
proof -
  have "reconcile_page [[97, 98], [99, 10, 100, 46]] 1 =
      append_step [[97, 98], [99, 10, 100, 46]] 1
        (last_paragraph ([[97, 98], [99, 10, 100, 46]] ! (1 - 1)) @ [[97, 98], [99, 10, 100, 46]] ! 1)"
    using prepend_uses_raw_predecessor [of 1 "[[97, 98], [99, 10, 100, 46]]"]
    by (simp add: terminal_marks_def)
  then show ?thesis
    by (simp add: append_step_def last_paragraph_def newline_def)
qed

text \<open>
  For the same two pages the corrected first page is \<open>"abc"\<close>, whose last paragraph is
  \<open>"abc"\<close>; the second page is prefixed with \<open>"ab"\<close>, not with \<open>"abc"\<close>.
\<close>

theorem prepend_corrected_counterexample:
  "reconcile_page [[97, 98], [99, 10, 100, 46]] 0 = [97, 98, 99]
   \<and> last_paragraph (reconcile_page [[97, 98], [99, 10, 100, 46]] 0) = [97, 98, 99]
   \<and> reconcile_page [[97, 98], [99, 10, 100, 46]] 1 = [97, 98, 99, 10, 100, 46]
   \<and> reconcile_page [[97, 98], [99, 10, 100, 46]] 1 \<noteq>
       last_paragraph (reconcile_page [[97, 98], [99, 10, 100, 46]] 0) @ [99, 10, 100, 46]"
  by (simp add: reconcile_page_def prepend_step_def append_step_def terminal_marks_def
        last_paragraph_def first_paragraph_def newline_def)

lemma reconcile_page_terminal:
  assumes "\<forall>p\<in>set pages. p \<noteq> [] \<longrightarrow> last p \<in> set terminal_marks" and "i < length pages"
  shows "reconcile_page pages i = pages ! i"
proof -
  have cur: "pages ! i \<noteq> [] \<longrightarrow> last (pages ! i) \<in> set terminal_marks"
    using assms by simp
  have "0 < i \<Longrightarrow> pages ! (i - 1) \<noteq> [] \<Longrightarrow> last (pages ! (i - 1)) \<in> set terminal_marks"
    using assms by simp
  then have "prepend_step pages i (pages ! i) = pages ! i"
    by (auto simp: prepend_step_def Let_def)
  moreover have "append_step pages i (pages ! i) = pages ! i"
    using cur by (auto simp: append_step_def Let_def)
  ultimately show ?thesis by (simp add: reconcile_page_def)
qed

text \<open>
  C7: when every non-empty page text ends in one of the terminal marks, the second pass
  changes nothing: the corrected text of every page is the text it was given.
\<close>

theorem reconcile_terminal_noop:
  "\<forall>p\<in>set pages. p \<noteq> [] \<longrightarrow> last p \<in> set terminal_marks \<Longrightarrow>
   map (reconcile_page pages) [0 ..< length pages] = pages"
  by (rule nth_equalityI) (simp_all add: reconcile_page_terminal)

text \<open>The theorem at the pages \<open>"a."\<close>, the empty page and \<open>"b!"\<close>.\<close>

theorem reconcile_terminal_noop_witness:
  "map (reconcile_page [[97, 46], [], [98, 33]]) [0 ..< length [[97, 46], [], [98, 33 :: nat]]]
     = [[97, 46], [], [98, 33]]"
  using reconcile_terminal_noop [of "[[97, 46], [], [98, 33]]"]
  by (simp add: terminal_marks_def)

section \<open>Page accounting\<close>

lemma save_pages_no_handler_fault:
  "\<forall>n\<in>set ns. fault n \<noteq> HandlerFault \<Longrightarrow>
   save_pages fault name dir pages ns saved =
     Inr (saved @ map (saved_record fault name dir pages) ns)"
proof (induction ns arbitrary: saved)
  case Nil
  show ?case by simp
next
  case (Cons n ns)
  then show ?case
    by (cases "fault n") (simp_all add: Let_def saved_record_def)
qed

lemma reconcile_page_empty:
  "pages ! n = [] \<Longrightarrow> reconcile_page pages n = []"
  by (simp add: reconcile_page_def prepend_step_def append_step_def)

text \<open>
  C9: for every document of \<open>N\<close> pages, whichever pages fail to be read in the first pass
  and whichever pages fail inside the \<open>try\<close> block of the second pass, \<open>parse_pdf\<close>
  saves exactly \<open>N\<close> records, to \<open>N\<close> different files, with the page numbers
  \<open>1, \<dots>, N\<close> in order and the total \<open>N\<close> in each; a page that could not be read or
  processed is saved with empty content.  The handler's own write is taken to succeed:
  an exception raised there is not caught by anything in \<open>parse_pdf\<close>.
\<close>

theorem parse_pdf_page_accounting:
  assumes "\<forall>n<length doc. fault n \<noteq> HandlerFault"
  shows "\<exists>saved. parse_pdf fault doc pdf_name output_dir = Inr saved
           \<and> length saved = length doc
           \<and> map (\<lambda>r. json_page_number (snd r)) saved = [1 ..< Suc (length doc)]
           \<and> (\<forall>r\<in>set saved. json_total_pages (snd r) = length doc)
           \<and> distinct (map fst saved)
           \<and> (\<forall>n<length doc. doc ! n = None \<or> fault n = TryFault \<longrightarrow>
                 json_content (snd (saved ! n)) = [])"
proof -
  let ?pages = "collect_pages doc"
  let ?dir = "path_join output_dir pdf_name"
  let ?saved = "map (saved_record fault pdf_name ?dir ?pages) [0 ..< length doc]"
  have len: "length ?pages = length doc" by (simp add: collect_pages_def)
  have run: "parse_pdf fault doc pdf_name output_dir = Inr ?saved"
    using assms save_pages_no_handler_fault [of "[0 ..< length doc]" fault pdf_name ?dir ?pages "[]"]
    by (simp add: parse_pdf_def Let_def len)
  have "map (\<lambda>r. json_page_number (snd r)) ?saved = map Suc [0 ..< length doc]"
    by (simp add: saved_record_def)
  then have numbers: "map (\<lambda>r. json_page_number (snd r)) ?saved = [1 ..< Suc (length doc)]"
    by (simp only: map_Suc_upt One_nat_def)
  have totals: "\<forall>r\<in>set ?saved. json_total_pages (snd r) = length doc"
    by (auto simp: saved_record_def len)
  have "inj_on (\<lambda>n. fst (saved_record fault pdf_name ?dir ?pages n)) (set [0 ..< length doc])"
    by (rule inj_onI) (simp add: saved_record_def page_file_inj)
  then have names: "distinct (map fst ?saved)"
    by (simp add: distinct_map comp_def)
  have empty: "json_content (snd (?saved ! n)) = []"
    if "n < length doc" and "doc ! n = None \<or> fault n = TryFault" for n
  proof (cases "fault n = TryFault")
    case True
    with that show ?thesis by (simp add: saved_record_def)
  next
    case False
    with that have "?pages ! n = []" by (simp add: collect_pages_def)
    with that show ?thesis by (simp add: saved_record_def reconcile_page_empty)
  qed
  show ?thesis
    using run numbers totals names empty by (intro exI [of _ ?saved]) simp
qed

text \<open>
  The theorem at a document of three pages where the third page cannot be read and the
  second fails in the \<open>try\<close> block.
\<close>

theorem parse_pdf_page_accounting_witness:
  "\<exists>saved. parse_pdf (\<lambda>n. if n = 1 then TryFault else NoFault)
              [Some [97, 98], Some [99, 46], None] [98] [111] = Inr saved
     \<and> length saved = 3
     \<and> map (\<lambda>r. json_page_number (snd r)) saved = [1, 2, 3]"
proof -
  have h: "\<forall>n<length [Some [97, 98], Some [99, 46], None :: pystr option].
             (if n = 1 then TryFault else NoFault) \<noteq> HandlerFault"
    by simp
  have u: "[1 ..< Suc (length [Some [97, 98], Some [99, 46], None :: pystr option])] = [1, 2, 3]"
    by (simp add: upt_rec)
  from parse_pdf_page_accounting [OF h, of "[98]" "[111]"] show ?thesis
    unfolding u by auto
qed

section \<open>File names\<close>

lemma last_str_nat: "last (str_nat n) = 48 + n mod 10"
  by (subst str_nat.simps) simp

lemma format_03d_small:
  assumes "n < 1000"
  shows "format_03d n = [48 + n div 100, 48 + n div 10 mod 10, 48 + n mod 10]"
proof -
  have one: "str_nat k = [48 + k]" if "k < 10" for k
    using that by (subst str_nat.simps) simp
  have more: "str_nat k = str_nat (k div 10) @ [48 + k mod 10]" if "10 \<le> k" for k
    using that by (subst str_nat.simps) simp
  have r2: "replicate 2 (48::nat) = [48, 48]" by (simp add: numeral_2_eq_2)
  consider "n < 10" | "10 \<le> n" "n < 100" | "100 \<le> n"
    by linarith
  then show ?thesis
  proof cases
    case 1
    then show ?thesis by (simp add: format_03d_def one r2)
  next
    case 2
    then have "n div 10 < 10" by (simp add: div_less_iff_less_mult)
    then have "str_nat n = [48 + n div 10, 48 + n mod 10]"
      using 2 by (simp add: more one)
    with 2 show ?thesis by (simp add: format_03d_def)
  next
    case 3
    have d1: "n div 10 div 10 = n div 100" by (simp add: div_mult2_eq)
    have "n div 100 < 10" using assms by (simp add: div_less_iff_less_mult)
    then have a: "str_nat (n div 10 div 10) = [48 + n div 100]"
      by (simp add: d1 one)
    have "10 \<le> n div 10" using 3 by (simp add: less_eq_div_iff_mult_less_eq)
    then have b: "str_nat (n div 10) = [48 + n div 100, 48 + n div 10 mod 10]"
      using a by (simp add: more)
    have "str_nat n = [48 + n div 100, 48 + n div 10 mod 10, 48 + n mod 10]"
      using 3 b by (simp add: more)
    then show ?thesis by (simp add: format_03d_def)
  qed
qed

lemma format_03d_not_Nil: "format_03d n \<noteq> []"
  by (simp add: format_03d_def str_nat_not_Nil)

lemma last_format_03d: "last (format_03d n) = 48 + n mod 10"
  by (simp add: format_03d_def str_nat_not_Nil last_str_nat)

lemma less_same_prefix: "(pre @ xs < pre @ ys) = (xs < (ys :: nat list))"
  by (induction pre) simp_all

lemma three_digits:
  "(n::nat) = 100 * (n div 100) + 10 * (n div 10 mod 10) + n mod 10"
proof -
  have "n div 10 div 10 = n div 100" by (simp add: div_mult2_eq)
  moreover have "n div 10 = 10 * (n div 10 div 10) + n div 10 mod 10" by simp
  moreover have "n = 10 * (n div 10) + n mod 10" by simp
  ultimately show ?thesis by linarith
qed

lemma digits_lex:
  assumes "100 * a + 10 * b + c < 100 * a' + 10 * b' + (c'::nat)"
    and "b < 10" "c < 10" "b' < 10" "c' < 10"
  shows "a < a' \<or> (a = a' \<and> b < b') \<or> (a = a' \<and> b = b' \<and> c < c')"
  using assms by linarith

lemma format_03d_mono:
  assumes "m < n" and "n < 1000"
  shows "format_03d m @ suf < format_03d n @ suf"
proof -
  have "100 * (m div 100) + 10 * (m div 10 mod 10) + m mod 10
      < 100 * (n div 100) + 10 * (n div 10 mod 10) + n mod 10"
    using assms(1) three_digits [of m] three_digits [of n] by (simp only:)
  then have "m div 100 < n div 100
      \<or> (m div 100 = n div 100 \<and> m div 10 mod 10 < n div 10 mod 10)
      \<or> (m div 100 = n div 100 \<and> m div 10 mod 10 = n div 10 mod 10 \<and> m mod 10 < n mod 10)"
    by (rule digits_lex) simp_all
  then show ?thesis
    using assms by (auto simp: format_03d_small)
qed

lemma temp_file_name_eq:
  "temp_file_name D n = dir_prefix D @ ascii ''temp_batch_'' @ format_03d n @ ascii ''.txt''"
  unfolding temp_file_name_def dir_prefix_def
  by (rule path_join_relative) (simp_all add: ascii_def)

lemma temp_file_name_inj: "temp_file_name D m = temp_file_name D n \<Longrightarrow> m = n"
proof -
  assume "temp_file_name D m = temp_file_name D n"
  then have "format_03d m = format_03d n"
    by (simp add: temp_file_name_eq)
  then have "digits_value (format_03d m) = digits_value (format_03d n)"
    by simp
  then show ?thesis by (simp add: digits_value_format_03d)
qed

lemma temp_file_name_mono:
  "m < n \<Longrightarrow> n < 1000 \<Longrightarrow> temp_file_name D m < temp_file_name D n"
  by (simp only: temp_file_name_eq less_same_prefix format_03d_mono)

text \<open>
  From the thousandth batch on the names have four digits, and their order as strings
  is no longer the order of their numbers.
\<close>

lemma temp_file_name_four_digits: "temp_file_name D 1000 < temp_file_name D 999"
proof -
  have "format_03d 1000 = [49, 48, 48, 48]"
    by (simp add: format_03d_def str_nat.simps)
  moreover have "format_03d 999 = [57, 57, 57]"
    by (simp add: format_03d_small)
  ultimately show ?thesis
    by (simp add: temp_file_name_eq less_same_prefix)
qed

lemma path_join_suffix: "\<exists>p. path_join a b = p @ b"
proof (cases "b \<noteq> [] \<and> hd b = 47")
  case True
  then have "path_join a b = [] @ b" by (simp add: path_join_def)
  then show ?thesis by blast
next
  case False
  then have "path_join a b = (if a = [] \<or> last a = 47 then a else a @ [47]) @ b"
    by (auto simp: path_join_def)
  then show ?thesis by blast
qed

lemma fifth_from_end:
  "length t = 4 \<Longrightarrow> last (take (length (u @ c # t) - 4) (u @ c # t)) = c"
  by simp

lemma temp_file_not_output: "temp_file_name D n \<noteq> output_file_name om page_range"
proof
  assume eq: "temp_file_name D n = output_file_name om page_range"
  obtain f where f: "format_03d n = butlast (format_03d n) @ [48 + n mod 10]"
    using format_03d_not_Nil [of n] last_format_03d [of n]
    by (metis append_butlast_last_id)
  have t: "temp_file_name D n =
      (dir_prefix D @ ascii ''temp_batch_'' @ butlast (format_03d n)) @ (48 + n mod 10) # ascii ''.txt''"
    by (subst temp_file_name_eq, subst f) simp
  obtain p where "output_file_name om page_range =
      p @ self_pdf_name om @ page_range @ ascii ''_literary.txt''"
    using path_join_suffix [of "self_pdf_output_dir om"] unfolding output_file_name_def by blast
  then have out: "output_file_name om page_range =
      (p @ self_pdf_name om @ page_range @ ascii ''_literar'') @ 121 # ascii ''.txt''"
    by (simp add: ascii_def)
  have len: "length (ascii ''.txt'') = 4" by (simp add: ascii_def)
  have "last (take (length (temp_file_name D n) - 4) (temp_file_name D n)) = 48 + n mod 10"
    by (subst (1 2) t) (rule fifth_from_end [OF len])
  moreover have "last (take (length (output_file_name om page_range) - 4)
                   (output_file_name om page_range)) = 121"
    by (subst (1 2) out) (rule fifth_from_end [OF len])
  ultimately have "48 + n mod 10 = (121::nat)" using eq by simp
  moreover have "n mod 10 < 10" by simp
  ultimately show False by linarith
qed

lemma temp_files_sorted:
  assumes "k < 1000"
  shows "sort (map (\<lambda>j. temp_file_name D (Suc j)) [0 ..< k]) =
           map (\<lambda>j. temp_file_name D (Suc j)) [0 ..< k]"
proof -
  have "sorted_wrt (\<lambda>a b. temp_file_name D (Suc a) \<le> temp_file_name D (Suc b)) [0 ..< k]"
  proof (rule sorted_wrt_mono_rel [of _ "(<)"])
    show "sorted_wrt (<) [0 ..< k]" by (rule sorted_wrt_upt)
  next
    fix a b
    assume "a \<in> set [0 ..< k]" and "b \<in> set [0 ..< k]" and "a < b"
    then have "Suc a < Suc b" and "Suc b < 1000" using assms by auto
    then have "temp_file_name D (Suc a) < temp_file_name D (Suc b)"
      by (rule temp_file_name_mono)
    then show "temp_file_name D (Suc a) \<le> temp_file_name D (Suc b)"
      by (rule less_imp_le)
  qed
  then have "sorted (map (\<lambda>j. temp_file_name D (Suc j)) [0 ..< k])"
    by (simp add: sorted_wrt_map)
  then show ?thesis by (rule sort_key_id_if_sorted [where f = "\<lambda>x. x", simplified])
qed

lemma temp_files_distinct: "distinct (map (\<lambda>j. temp_file_name D (Suc j)) [0 ..< k])"
proof -
  have "inj_on (\<lambda>j. temp_file_name D (Suc j)) (set [0 ..< k])"
    by (rule inj_onI) (auto dest: temp_file_name_inj)
  then show ?thesis by (simp add: distinct_map)
qed

section \<open>The batches\<close>

lemma flushes_concat:
  "flushes d rs pp cur = (bs, c) \<Longrightarrow>
   concat bs @ c = cur @ filter (\<lambda>r. snd r \<noteq> []) rs \<and> [] \<notin> set bs"
proof (induction rs arbitrary: pp cur bs c)
  case Nil
  then show ?case by simp
next
  case (Cons r rs)
  define cur1 where "cur1 = (if snd r \<noteq> [] then cur @ [r] else cur)"
  have c1: "cur1 @ filter (\<lambda>r. snd r \<noteq> []) rs = cur @ filter (\<lambda>r. snd r \<noteq> []) (r # rs)"
    by (simp add: cur1_def)
  have plan: "(if (pp + 1) mod d = 0 \<and> cur1 \<noteq> []
               then (case flushes d rs (pp + 1) [] of (bs, c) \<Rightarrow> (cur1 # bs, c))
               else flushes d rs (pp + 1) cur1) = (bs, c)"
    using Cons.prems by (simp only: flushes.simps Let_def cur1_def)
  show ?case
  proof (cases "(pp + 1) mod d = 0 \<and> cur1 \<noteq> []")
    case True
    obtain bs' where rest: "flushes d rs (pp + 1) [] = (bs', c)" and bs: "bs = cur1 # bs'"
      using plan True by (cases "flushes d rs (pp + 1) []") auto
    from Cons.IH [OF rest] bs True c1 show ?thesis by auto
  next
    case False
    then have "flushes d rs (pp + 1) cur1 = (bs, c)"
      using plan by (simp split: if_splits)
    from Cons.IH [OF this] c1 show ?thesis by simp
  qed
qed

lemma concat_batches: "concat (batches d rs) = filter (\<lambda>r. snd r \<noteq> []) rs"
proof -
  obtain bs c where plan: "flushes d rs 0 [] = (bs, c)" by (cases "flushes d rs 0 []")
  from flushes_concat [OF plan] show ?thesis by (auto simp: batches_def plan)
qed

lemma batches_nonempty: "[] \<notin> set (batches d rs)"
proof -
  obtain bs c where plan: "flushes d rs 0 [] = (bs, c)" by (cases "flushes d rs 0 []")
  from flushes_concat [OF plan] show ?thesis by (auto simp: batches_def plan)
qed

lemma batches_Nil: "batches d rs = [] \<longleftrightarrow> filter (\<lambda>r. snd r \<noteq> []) rs = []"
proof
  assume "batches d rs = []"
  then show "filter (\<lambda>r. snd r \<noteq> []) rs = []"
    using concat_batches [of d rs] by simp
next
  assume "filter (\<lambda>r. snd r \<noteq> []) rs = []"
  then have "concat (batches d rs) = []" by (simp add: concat_batches)
  then have "\<forall>b\<in>set (batches d rs). b = []" by simp
  with batches_nonempty [of d rs] show "batches d rs = []"
    by (cases "batches d rs") auto
qed

lemma flushes_single:
  "0 \<le> pp \<Longrightarrow> pp + int (length rs) \<le> d \<Longrightarrow> flushes d rs pp cur = (bs, c) \<Longrightarrow>
   length bs \<le> 1 \<and> (bs \<noteq> [] \<longrightarrow> c = [])"
proof (induction rs arbitrary: pp cur bs c)
  case Nil
  then show ?case by simp
next
  case (Cons r rs)
  define cur1 where "cur1 = (if snd r \<noteq> [] then cur @ [r] else cur)"
  have plan: "(if (pp + 1) mod d = 0 \<and> cur1 \<noteq> []
               then (case flushes d rs (pp + 1) [] of (bs, c) \<Rightarrow> (cur1 # bs, c))
               else flushes d rs (pp + 1) cur1) = (bs, c)"
    using Cons.prems(3) by (simp only: flushes.simps Let_def cur1_def)
  have bound: "0 \<le> pp + 1" "(pp + 1) + int (length rs) \<le> d"
    using Cons.prems(1,2) by simp_all
  show ?case
  proof (cases "(pp + 1) mod d = 0 \<and> cur1 \<noteq> []")
    case True
    have "pp + 1 = d"
    proof (rule ccontr)
      assume "pp + 1 \<noteq> d"
      with bound have "0 < pp + 1" and "pp + 1 < d" using Cons.prems(1) by auto
      then have "(pp + 1) mod d = pp + 1" by simp
      with True \<open>0 < pp + 1\<close> show False by simp
    qed
    with bound have "rs = []" by simp
    with plan True show ?thesis by auto
  next
    case False
    then have "flushes d rs (pp + 1) cur1 = (bs, c)"
      using plan by (simp split: if_splits)
    from Cons.IH [OF bound this] show ?thesis .
  qed
qed

lemma batches_single: "length (batches (int (length rs)) rs) \<le> 1"
proof -
  obtain bs c where plan: "flushes (int (length rs)) rs 0 [] = (bs, c)"
    by (cases "flushes (int (length rs)) rs 0 []")
  from flushes_single [OF _ _ plan] have "length bs \<le> 1 \<and> (bs \<noteq> [] \<longrightarrow> c = [])" by simp
  then show ?thesis by (auto simp: batches_def plan)
qed

section \<open>Flushing batches\<close>

lemma sections_Cons: "sections (x # xs) = section_text x @ sections xs"
  by (simp add: sections_def)

lemma write_sections_eq:
  "write_sections xs written =
     (if \<forall>r\<in>set xs. encodable (snd r) then Inr (written @ sections xs)
      else Inl UnicodeEncodeError)"
proof (induction xs arbitrary: written)
  case Nil
  show ?case by (simp add: sections_def)
next
  case (Cons r xs)
  obtain page sentences where r: "r = (page, sentences)" by (cases r)
  show ?case
    by (simp add: r Cons.IH sections_Cons section_text_def)
qed

lemma write_batch_sections:
  "\<forall>r\<in>set batch. encodable (snd r) \<Longrightarrow>
   write_batch fs filename batch = Inr (fs(filename \<mapsto> sections (sort_key fst batch)))"
  by (simp add: write_batch_def write_sections_eq)

lemma flushed_init: "flushed (path_join output_dir pdf_name) (init output_dir pdf_name d) fs []"
  by (simp add: flushed_def init_def)

lemma flushed_add_content:
  "flushed D self fs closed \<Longrightarrow> flushed D (add_content self page sentences) fs closed"
  by (simp add: flushed_def add_content_def)

lemma dump_interval_batch_flushed:
  assumes "flushed D self fs closed" and "self_current_batch self \<noteq> []"
    and "\<forall>r\<in>set (self_current_batch self). encodable (snd r)"
  shows "\<exists>self' fs'. dump_interval_batch self fs = Inr (self', fs')
           \<and> flushed D self' fs' (closed @ [self_current_batch self])
           \<and> self_current_batch self' = []
           \<and> self_pdf_name self' = self_pdf_name self
           \<and> (\<forall>x. (\<forall>n. x \<noteq> temp_file_name D n) \<longrightarrow> fs' x = fs x)"
proof -
  let ?k = "Suc (length closed)"
  let ?self' = "self\<lparr>self_batch_count := ?k,
                      self_temp_files := self_temp_files self @ [temp_file_name D ?k],
                      self_current_batch := []\<rparr>"
  let ?fs' = "fs(temp_file_name D ?k \<mapsto> sections (sort_key fst (self_current_batch self)))"
  have run: "dump_interval_batch self fs = Inr (?self', ?fs')"
    using assms by (simp add: dump_interval_batch_def Let_def flushed_def write_batch_sections)
  have old: "?fs' (temp_file_name D (Suc j)) = fs (temp_file_name D (Suc j))"
    if "j < length closed" for j
  proof -
    have "temp_file_name D (Suc j) \<noteq> temp_file_name D ?k"
      using that temp_file_name_inj [of D "Suc j" ?k] by auto
    then show ?thesis by simp
  qed
  have files: "?fs' (temp_file_name D (Suc j)) =
      Some (sections (sort_key fst ((closed @ [self_current_batch self]) ! j)))"
    if "j < length (closed @ [self_current_batch self])" for j
  proof (cases "j < length closed")
    case True
    with old [OF True] assms(1) show ?thesis by (simp add: flushed_def nth_append)
  next
    case False
    with that have "j = length closed" by simp
    then show ?thesis by simp
  qed
  have "flushed D ?self' ?fs' (closed @ [self_current_batch self])"
    unfolding flushed_def using assms(1) files by (simp add: flushed_def)
  moreover have "\<forall>x. (\<forall>n. x \<noteq> temp_file_name D n) \<longrightarrow> ?fs' x = fs x"
    by simp
  ultimately show ?thesis using run by simp
qed

lemma batch_loop_flushed:
  "d \<noteq> 0 \<Longrightarrow> flushed D self fs closed \<Longrightarrow>
   flushes d rs pp (self_current_batch self) = (bs, c) \<Longrightarrow>
   \<forall>r\<in>set rs. encodable (snd r) \<Longrightarrow>
   \<forall>r\<in>set (self_current_batch self). encodable (snd r) \<Longrightarrow>
   \<exists>self' fs'. batch_loop d rs pp self fs = Inr (self', fs')
      \<and> flushed D self' fs' (closed @ bs)
      \<and> self_current_batch self' = c
      \<and> self_pdf_name self' = self_pdf_name self
      \<and> (\<forall>x. (\<forall>n. x \<noteq> temp_file_name D n) \<longrightarrow> fs' x = fs x)
      \<and> (bs = [] \<longrightarrow> fs' = fs)"
proof (induction rs arbitrary: pp self fs closed bs c)
  case Nil
  then show ?case by simp
next
  case (Cons r rs)
  obtain page sentences where r: "r = (page, sentences)" by (cases r)
  define self1 where "self1 = add_content self page sentences"
  define cur1 where "cur1 = self_current_batch self1"
  have cur1: "(if snd r \<noteq> [] then self_current_batch self @ [r] else self_current_batch self) = cur1"
    by (simp add: cur1_def self1_def add_content_def r)
  have name1: "self_pdf_name self1 = self_pdf_name self"
    by (simp add: self1_def add_content_def)
  have enc_rs: "\<forall>r\<in>set rs. encodable (snd r)" and enc_r: "encodable (snd r)"
    using Cons.prems(4) by simp_all
  have enc1: "\<forall>r\<in>set (self_current_batch self1). encodable (snd r)"
    using Cons.prems(5) enc_r by (auto simp: self1_def add_content_def r)
  have fl1: "flushed D self1 fs closed"
    unfolding self1_def using Cons.prems(2) by (rule flushed_add_content)
  have plan: "(if (pp + 1) mod d = 0 \<and> cur1 \<noteq> []
               then (case flushes d rs (pp + 1) [] of (bs, c) \<Rightarrow> (cur1 # bs, c))
               else flushes d rs (pp + 1) cur1) = (bs, c)"
    using Cons.prems(3) by (simp only: flushes.simps Let_def cur1)
  have loop: "batch_loop d (r # rs) pp self fs =
      (if (pp + 1) mod d = 0
       then (case dump_interval_batch self1 fs of
               Inl e \<Rightarrow> Inl e
             | Inr (self2, fs2) \<Rightarrow> batch_loop d rs (pp + 1) self2 fs2)
       else batch_loop d rs (pp + 1) self1 fs)"
    using Cons.prems(1) by (simp add: r Let_def self1_def)
  show ?case
  proof (cases "(pp + 1) mod d = 0 \<and> cur1 \<noteq> []")
    case True
    obtain bs' where rest: "flushes d rs (pp + 1) [] = (bs', c)" and bs: "bs = cur1 # bs'"
      using plan True by (cases "flushes d rs (pp + 1) []") auto
    obtain self2 fs2 where dump: "dump_interval_batch self1 fs = Inr (self2, fs2)"
      and fl2: "flushed D self2 fs2 (closed @ [cur1])"
      and cur2: "self_current_batch self2 = []"
      and name2: "self_pdf_name self2 = self_pdf_name self"
      and same2: "\<forall>x. (\<forall>n. x \<noteq> temp_file_name D n) \<longrightarrow> fs2 x = fs x"
      using dump_interval_batch_flushed [OF fl1 _ enc1] True name1 unfolding cur1_def by auto
    from rest cur2 have rest2: "flushes d rs (pp + 1) (self_current_batch self2) = (bs', c)"
      by simp
    have enc2: "\<forall>r\<in>set (self_current_batch self2). encodable (snd r)"
      using cur2 by simp
    obtain self' fs' where "batch_loop d rs (pp + 1) self2 fs2 = Inr (self', fs')"
      and "flushed D self' fs' ((closed @ [cur1]) @ bs')"
      and "self_current_batch self' = c"
      and "self_pdf_name self' = self_pdf_name self2"
      and "\<forall>x. (\<forall>n. x \<noteq> temp_file_name D n) \<longrightarrow> fs' x = fs2 x"
      using Cons.IH [OF Cons.prems(1) fl2 rest2 enc_rs enc2] by blast
    then show ?thesis
      using True loop dump bs name2 same2 by simp
  next
    case False
    then have rest: "flushes d rs (pp + 1) (self_current_batch self1) = (bs, c)"
      using plan unfolding cur1_def by (simp split: if_splits)
    obtain self' fs' where "batch_loop d rs (pp + 1) self1 fs = Inr (self', fs')"
      and "flushed D self' fs' (closed @ bs)"
      and "self_current_batch self' = c"
      and "self_pdf_name self' = self_pdf_name self1"
      and "\<forall>x. (\<forall>n. x \<noteq> temp_file_name D n) \<longrightarrow> fs' x = fs x"
      and "bs = [] \<longrightarrow> fs' = fs"
      using Cons.IH [OF Cons.prems(1) fl1 rest enc_rs enc1] by blast
    moreover have "batch_loop d (r # rs) pp self fs = batch_loop d rs (pp + 1) self1 fs"
    proof (cases "(pp + 1) mod d = 0")
      case True
      with False have "self_current_batch self1 = []" unfolding cur1_def by simp
      then have "dump_interval_batch self1 fs = Inr (self1, fs)"
        by (simp add: dump_interval_batch_def)
      with True loop show ?thesis by simp
    next
      case False
      with loop show ?thesis by simp
    qed
    ultimately show ?thesis using name1 by simp
  qed
qed

section \<open>Merging\<close>

lemma merge_loop_concat:
  "distinct ts \<Longrightarrow> out \<notin> set ts \<Longrightarrow> map fs ts = map Some cs \<Longrightarrow> fs out = Some acc \<Longrightarrow>
   \<exists>fs'. merge_loop out ts fs = Inr fs'
      \<and> fs' out = Some (acc @ concat (map universal_newlines cs))
      \<and> (\<forall>x. x \<noteq> out \<longrightarrow> x \<notin> set ts \<longrightarrow> fs' x = fs x)
      \<and> (\<forall>t\<in>set ts. fs' t = None)"
proof (induction ts arbitrary: fs cs acc)
  case Nil
  then show ?case by simp
next
  case (Cons t ts)
  then obtain c cs' where cs: "cs = c # cs'" and t: "fs t = Some c"
    and rest: "map fs ts = map Some cs'"
    by (cases cs) auto
  let ?fs1 = "(fs(out \<mapsto> acc @ universal_newlines c))(t := None)"
  have t_out: "t \<noteq> out" and t_ts: "t \<notin> set ts" and out_ts: "out \<notin> set ts"
    and dist: "distinct ts"
    using Cons.prems(1,2) by auto
  have "map ?fs1 ts = map fs ts"
    using t_ts out_ts by (intro map_cong) auto
  with rest have rest1: "map ?fs1 ts = map Some cs'" by simp
  have out1: "?fs1 out = Some (acc @ universal_newlines c)" using t_out by simp
  obtain fs' where "merge_loop out ts ?fs1 = Inr fs'"
    and "fs' out = Some ((acc @ universal_newlines c) @ concat (map universal_newlines cs'))"
    and "\<forall>x. x \<noteq> out \<longrightarrow> x \<notin> set ts \<longrightarrow> fs' x = ?fs1 x"
    and "\<forall>t\<in>set ts. fs' t = None"
    using Cons.IH [OF dist out_ts rest1 out1] by blast
  then show ?case
    using t cs Cons.prems(4) t_out t_ts by (auto simp: fun_upd_def)
qed


lemma output_file_name_cong:
  "self_pdf_output_dir a = self_pdf_output_dir b \<Longrightarrow> self_pdf_name a = self_pdf_name b \<Longrightarrow>
   output_file_name a page_range = output_file_name b page_range"
  by (simp add: output_file_name_def)

lemma merge_flushed:
  assumes fl: "flushed D self fs closed" and cur: "self_current_batch self = []"
    and nonempty: "closed \<noteq> []" and small: "length closed < 1000"
  shows "\<exists>self' fs'. merge_and_cleanup self fs page_range = Inr (self', fs')
           \<and> fs' (output_file_name self page_range) =
               Some (concat (map (\<lambda>b. universal_newlines (sections (sort_key fst b))) closed))
           \<and> (\<forall>x. x \<noteq> output_file_name self page_range \<longrightarrow>
                  (\<forall>n. x \<noteq> temp_file_name D n) \<longrightarrow> fs' x = fs x)"
proof -
  let ?out = "output_file_name self page_range"
  let ?ts = "map (\<lambda>j. temp_file_name D (Suc j)) [0 ..< length closed]"
  let ?cs = "map (\<lambda>b. sections (sort_key fst b)) closed"
  let ?fs1 = "fs(?out \<mapsto> [])"
  have ts: "self_temp_files self = ?ts" using fl by (simp add: flushed_def)
  have ts_ne: "self_temp_files self \<noteq> []" using ts nonempty by simp
  have sorted: "sort ?ts = ?ts" using small by (rule temp_files_sorted)
  have dist: "distinct ?ts" by (rule temp_files_distinct)
  have out: "?out \<notin> set ?ts"
  proof
    assume "?out \<in> set ?ts"
    then obtain n where "temp_file_name D n = ?out" by auto
    then show False by (simp add: temp_file_not_output)
  qed
  have "map fs ?ts = map Some ?cs"
  proof (rule nth_equalityI)
    show "length (map fs ?ts) = length (map Some ?cs)" by simp
  next
    fix i
    assume "i < length (map fs ?ts)"
    then have i: "i < length closed" by simp
    with fl show "map fs ?ts ! i = map Some ?cs ! i"
      by (simp add: flushed_def)
  qed
  moreover have "map ?fs1 ?ts = map fs ?ts"
  proof (rule map_cong [OF refl])
    fix t
    assume "t \<in> set ?ts"
    with out have "t \<noteq> ?out" by blast
    then show "?fs1 t = fs t" by simp
  qed
  ultimately have files: "map ?fs1 ?ts = map Some ?cs" by simp
  have "?fs1 ?out = Some []" by simp
  from merge_loop_concat [OF dist out files this]
  obtain fs' where loop: "merge_loop ?out ?ts ?fs1 = Inr fs'"
    and res: "fs' ?out = Some ([] @ concat (map universal_newlines ?cs))"
    and same: "\<forall>x. x \<noteq> ?out \<longrightarrow> x \<notin> set ?ts \<longrightarrow> fs' x = ?fs1 x"
    by blast
  have "merge_and_cleanup self fs page_range = Inr (self\<lparr>self_temp_files := []\<rparr>, fs')"
    using ts_ne cur loop sorted ts by (simp add: merge_and_cleanup_def Let_def)
  moreover have "\<forall>x. x \<noteq> ?out \<longrightarrow> (\<forall>n. x \<noteq> temp_file_name D n) \<longrightarrow> fs' x = fs x"
    using same by auto
  ultimately show ?thesis using res by (simp add: comp_def)
qed

lemma merge_and_cleanup_flushed:
  assumes fl: "flushed D self fs closed"
    and all: "all = closed @ (if self_current_batch self = [] then [] else [self_current_batch self])"
    and small: "length all < 1000"
    and enc: "\<forall>r\<in>set (self_current_batch self). encodable (snd r)"
  shows "if all = [] then merge_and_cleanup self fs page_range = Inr (self, fs)
         else (\<exists>self' fs'. merge_and_cleanup self fs page_range = Inr (self', fs')
                 \<and> fs' (output_file_name self page_range) =
                     Some (concat (map (\<lambda>b. universal_newlines (sections (sort_key fst b))) all))
                 \<and> (\<forall>x. x \<noteq> output_file_name self page_range \<longrightarrow>
                        (\<forall>n. x \<noteq> temp_file_name D n) \<longrightarrow> fs' x = fs x))"
proof (cases "self_current_batch self = []")
  case True
  show ?thesis
  proof (cases "closed = []")
    case empty: True
    with fl have "self_temp_files self = []" by (simp add: flushed_def)
    with True empty all show ?thesis by (simp add: merge_and_cleanup_def)
  next
    case False
    with merge_flushed [OF fl True False, of page_range] small all True
    show ?thesis by simp
  qed
next
  case False
  obtain self1 fs1 where dump: "dump_interval_batch self fs = Inr (self1, fs1)"
    and fl1: "flushed D self1 fs1 all"
    and cur1: "self_current_batch self1 = []"
    and name1: "self_pdf_name self1 = self_pdf_name self"
    and same1: "\<forall>x. (\<forall>n. x \<noteq> temp_file_name D n) \<longrightarrow> fs1 x = fs x"
    using dump_interval_batch_flushed [OF fl False enc] all False by auto
  have ne: "all \<noteq> []" using all False by simp
  have dir: "self_pdf_output_dir self1 = self_pdf_output_dir self"
    using fl fl1 by (simp add: flushed_def)
  have out: "output_file_name self1 page_range = output_file_name self page_range"
    using dir name1 by (rule output_file_name_cong)
  obtain self' fs' where m: "merge_and_cleanup self1 fs1 page_range = Inr (self', fs')"
    and res: "fs' (output_file_name self1 page_range) =
        Some (concat (map (\<lambda>b. universal_newlines (sections (sort_key fst b))) all))"
    and same: "\<forall>x. x \<noteq> output_file_name self1 page_range \<longrightarrow>
        (\<forall>n. x \<noteq> temp_file_name D n) \<longrightarrow> fs' x = fs1 x"
    using merge_flushed [OF fl1 cur1 ne small, of page_range] by blast
  have "self_temp_files self1 \<noteq> []" using fl1 ne by (simp add: flushed_def)
  then have "merge_and_cleanup self fs page_range = merge_and_cleanup self1 fs1 page_range"
    using False dump cur1 by (simp add: merge_and_cleanup_def)
  with m res same same1 out ne show ?thesis by simp
qed

section \<open>Batch mode as a whole\<close>

lemma process_document_batch:
  assumes "d \<noteq> 0" and "length (batches d rs) < 1000"
    and enc: "\<forall>r\<in>set rs. encodable (snd r)"
  shows "if batches d rs = []
         then process_document Batch d output_dir pdf_dir page_range rs fs = Inr fs
         else (\<exists>fs'. process_document Batch d output_dir pdf_dir page_range rs fs = Inr fs'
                 \<and> fs' (output_file_name (init output_dir pdf_dir d) page_range) =
                     Some (concat (map (\<lambda>b. universal_newlines (sections (sort_key fst b)))
                                       (batches d rs)))
                 \<and> (\<forall>x. x \<noteq> output_file_name (init output_dir pdf_dir d) page_range \<longrightarrow>
                        (\<forall>n. x \<noteq> temp_file_name (path_join output_dir pdf_dir) n) \<longrightarrow>
                        fs' x = fs x))"
proof -
  let ?D = "path_join output_dir pdf_dir"
  let ?self = "init output_dir pdf_dir d"
  obtain bs c where plan: "flushes d rs 0 [] = (bs, c)"
    by (cases "flushes d rs 0 []")
  have cur0: "self_current_batch ?self = []" by (simp add: init_def)
  have enc0: "\<forall>r\<in>set (self_current_batch ?self). encodable (snd r)"
    by (simp add: init_def)
  from plan cur0 have plan0: "flushes d rs 0 (self_current_batch ?self) = (bs, c)" by simp
  obtain self1 fs1 where loop: "batch_loop d rs 0 ?self fs = Inr (self1, fs1)"
    and fl1: "flushed ?D self1 fs1 ([] @ bs)"
    and cur1: "self_current_batch self1 = c"
    and name1: "self_pdf_name self1 = self_pdf_name ?self"
    and same1: "\<forall>x. (\<forall>n. x \<noteq> temp_file_name ?D n) \<longrightarrow> fs1 x = fs x"
    and none1: "bs = [] \<longrightarrow> fs1 = fs"
    using batch_loop_flushed [OF assms(1) flushed_init plan0 enc enc0] by blast
  have all: "batches d rs = bs @ (if self_current_batch self1 = [] then [] else [self_current_batch self1])"
    using plan cur1 by (simp add: batches_def)
  have fl1': "flushed ?D self1 fs1 bs" using fl1 by simp
  have "set c \<subseteq> set rs" using flushes_concat [OF plan]
    by (metis append_Nil filter_is_subset set_append sup.bounded_iff)
  then have enc1: "\<forall>r\<in>set (self_current_batch self1). encodable (snd r)"
    using enc cur1 by auto
  have dir: "self_pdf_output_dir self1 = self_pdf_output_dir ?self"
    using fl1 by (simp add: flushed_def init_def)
  have out: "output_file_name self1 page_range = output_file_name ?self page_range"
    using dir name1 by (rule output_file_name_cong)
  have run: "process_document Batch d output_dir pdf_dir page_range rs fs =
      (case merge_and_cleanup self1 fs1 page_range of
         Inl e \<Rightarrow> Inl e
       | Inr (output_manager2, fs2) \<Rightarrow> Inr fs2)"
    using loop by (simp add: process_document_def)
  show ?thesis
  proof (cases "batches d rs = []")
    case True
    with merge_and_cleanup_flushed [OF fl1' all assms(2) enc1, of page_range]
    have "merge_and_cleanup self1 fs1 page_range = Inr (self1, fs1)" by simp
    moreover have "fs1 = fs" using True all none1 by simp
    ultimately show ?thesis using True run by simp
  next
    case False
    with merge_and_cleanup_flushed [OF fl1' all assms(2) enc1, of page_range]
    obtain self' fs' where "merge_and_cleanup self1 fs1 page_range = Inr (self', fs')"
      and "fs' (output_file_name self1 page_range) =
          Some (concat (map (\<lambda>b. universal_newlines (sections (sort_key fst b))) (batches d rs)))"
      and "\<forall>x. x \<noteq> output_file_name self1 page_range \<longrightarrow>
          (\<forall>n. x \<noteq> temp_file_name ?D n) \<longrightarrow> fs' x = fs1 x"
      by auto
    with False run same1 out show ?thesis by simp
  qed
qed

section \<open>Reading back what was written\<close>

lemma universal_newlines_Cons:
  "c \<noteq> 13 \<Longrightarrow> universal_newlines (c # cs) = c # universal_newlines cs"
  by (cases cs) simp_all

lemma universal_newlines_append:
  "xs = [] \<or> last xs \<noteq> 13 \<Longrightarrow>
   universal_newlines (xs @ ys) = universal_newlines xs @ universal_newlines ys"
proof (induction xs rule: universal_newlines.induct)
  case 1
  show ?case by simp
next
  case (2 c)
  then show ?case by (simp add: universal_newlines_Cons)
next
  case (3 c d cs)
  have tail: "d # cs = [] \<or> last (d # cs) \<noteq> 13" using "3.prems" by simp
  show ?case
  proof (cases "c = 13 \<and> d = 10")
    case True
    then have "cs = [] \<or> last cs \<noteq> 13" using "3.prems" by auto
    with True "3.IH"(1) show ?thesis by simp
  next
    case False
    show ?thesis
    proof (cases "c = 13")
      case True
      with False have "universal_newlines ((d # cs) @ ys) =
          universal_newlines (d # cs) @ universal_newlines ys"
        using "3.IH"(2) tail by simp
      moreover have "universal_newlines ((c # d # cs) @ ys) =
          10 # universal_newlines ((d # cs) @ ys)"
        using True False by simp
      ultimately show ?thesis using True False by simp
    next
      case notcr: False
      then have "universal_newlines ((d # cs) @ ys) =
          universal_newlines (d # cs) @ universal_newlines ys"
        using "3.IH"(3) tail False by simp
      then show ?thesis using notcr by (simp add: universal_newlines_Cons)
    qed
  qed
qed

lemma universal_newlines_id: "13 \<notin> set s \<Longrightarrow> universal_newlines s = s"
  by (induction s) (simp_all add: universal_newlines_Cons)

lemma universal_newlines_concat:
  "\<forall>x\<in>set xss. x = [] \<or> last x \<noteq> 13 \<Longrightarrow>
   concat (map universal_newlines xss) = universal_newlines (concat xss)"
  by (induction xss) (simp_all add: universal_newlines_append)

lemma last_sections: "xs \<noteq> [] \<Longrightarrow> last (sections xs) = 10"
proof (cases xs rule: rev_cases)
  case Nil
  assume "xs \<noteq> []"
  with Nil show ?thesis by simp
next
  case (snoc ys y)
  then show ?thesis by (simp add: sections_def section_text_def)
qed

lemma str_nat_digits: "c \<in> set (str_nat n) \<Longrightarrow> 48 \<le> c"
proof (induction n rule: str_nat.induct)
  case (1 n)
  show ?case
  proof (cases "n < 10")
    case True
    with "1.prems" show ?thesis by (subst (asm) str_nat.simps) simp
  next
    case False
    with "1.prems" have "c \<in> set (str_nat (n div 10)) \<or> c = 48 + n mod 10"
      by (subst (asm) str_nat.simps) auto
    with False "1.IH" show ?thesis by auto
  qed
qed

lemma section_text_no_cr: "13 \<notin> set (snd r) \<Longrightarrow> 13 \<notin> set (section_text r)"
  by (auto simp: section_text_def ascii_def str_int_def dest: str_nat_digits)

lemma sections_no_cr: "\<forall>r\<in>set xs. 13 \<notin> set (snd r) \<Longrightarrow> 13 \<notin> set (sections xs)"
  by (induction xs) (simp_all add: sections_def section_text_no_cr)

section \<open>Sections in page order\<close>

lemma sections_append: "sections (xs @ ys) = sections xs @ sections ys"
  by (simp add: sections_def)

lemma sections_concat: "sections (concat bss) = concat (map sections bss)"
  by (induction bss) (simp_all add: sections_append, simp add: sections_def)

lemma sorted_concat_part:
  "sorted (map f (concat bss)) \<Longrightarrow> b \<in> set bss \<Longrightarrow> sorted (map f b)"
  by (induction bss) (auto simp: sorted_append)

lemma sorted_batches_sections:
  assumes "sorted (map fst rs)"
  shows "concat (map (\<lambda>b. universal_newlines (sections (sort_key fst b))) (batches d rs)) =
           universal_newlines (sections (filter (\<lambda>r. snd r \<noteq> []) rs))"
proof -
  have "sorted (map fst (filter (\<lambda>r. snd r \<noteq> []) rs))"
    using assms by (rule sorted_filter)
  then have "sorted (map fst (concat (batches d rs)))"
    by (simp add: concat_batches)
  then have "\<forall>b\<in>set (batches d rs). sort_key fst b = b"
    by (auto intro: sort_key_id_if_sorted sorted_concat_part)
  then have "map (\<lambda>b. universal_newlines (sections (sort_key fst b))) (batches d rs) =
      map universal_newlines (map sections (batches d rs))"
    by (simp add: comp_def cong: map_cong)
  moreover have "\<forall>x\<in>set (map sections (batches d rs)). x = [] \<or> last x \<noteq> 13"
  proof
    fix x
    assume "x \<in> set (map sections (batches d rs))"
    then obtain b where "b \<in> set (batches d rs)" and x: "x = sections b" by auto
    then have "b \<noteq> []" using batches_nonempty [of d rs] by auto
    then show "x = [] \<or> last x \<noteq> 13" by (simp add: x last_sections)
  qed
  ultimately have "concat (map (\<lambda>b. universal_newlines (sections (sort_key fst b))) (batches d rs)) =
      universal_newlines (concat (map sections (batches d rs)))"
    by (simp only: universal_newlines_concat)
  then show ?thesis
    by (simp only: sections_concat [symmetric] concat_batches)
qed

lemma fst_extraction:
  "map fst (concat (map (\<lambda>current_page.
                           case extract current_page of
                             None \<Rightarrow> []
                           | Some literary_sentences \<Rightarrow> [(current_page, literary_sentences)]) ps))
     = filter (\<lambda>p. extract p \<noteq> None) ps"
  by (induction ps) (auto split: option.splits)

lemma sorted_extraction_results:
  "sorted (map fst (extraction_results extract a b))"
proof -
  have "sorted (filter (\<lambda>p. extract p \<noteq> None) [a .. b])"
    by (rule sorted_filter [where f = "\<lambda>x. x", simplified]) simp
  then show ?thesis
    by (simp only: extraction_results_def fst_extraction)
qed

lemma final_file_init:
  "output_file_name (init output_dir pdf_dir d) page_range = final_file output_dir pdf_dir page_range"
  by (simp add: output_file_name_def init_def final_file_def)

section \<open>Append mode\<close>

lemma append_to_file_section:
  "encodable sentences \<Longrightarrow>
   append_to_file self fs page sentences page_range =
     Inr (if sentences = [] then fs
          else fs(output_file_name self page_range \<mapsto>
                  (case fs (output_file_name self page_range) of None \<Rightarrow> [] | Some old \<Rightarrow> old)
                  @ section_text (page, sentences)))"
  by (simp add: append_to_file_def Let_def section_text_def)

lemma append_loop_sections:
  "\<forall>r\<in>set rs. encodable (snd r) \<Longrightarrow>
   append_loop page_range rs self fs =
     Inr (if filter (\<lambda>r. snd r \<noteq> []) rs = [] then fs
          else fs(output_file_name self page_range \<mapsto>
                  (case fs (output_file_name self page_range) of None \<Rightarrow> [] | Some old \<Rightarrow> old)
                  @ sections (filter (\<lambda>r. snd r \<noteq> []) rs)))"
proof (induction rs arbitrary: fs)
  case Nil
  show ?case by simp
next
  case (Cons r rs)
  obtain page sentences where r: "r = (page, sentences)" by (cases r)
  have enc: "encodable sentences" and enc_rs: "\<forall>r\<in>set rs. encodable (snd r)"
    using Cons.prems by (simp_all add: r)
  note IH = Cons.IH [OF enc_rs]
  show ?case
  proof (cases "sentences = []")
    case True
    then show ?thesis by (simp add: r IH append_to_file_def)
  next
    case False
    let ?out = "output_file_name self page_range"
    let ?old = "case fs ?out of None \<Rightarrow> [] | Some old \<Rightarrow> old"
    let ?fs1 = "fs(?out \<mapsto> ?old @ section_text r)"
    have step: "append_loop page_range (r # rs) self fs = append_loop page_range rs self ?fs1"
      using False by (simp add: r append_to_file_section [OF enc])
    show ?thesis
    proof (cases "filter (\<lambda>r. snd r \<noteq> []) rs = []")
      case True
      with False step show ?thesis
        by (simp add: r IH sections_def)
    next
      case rest: False
      have "append_loop page_range rs self ?fs1 =
          Inr (?fs1(?out \<mapsto> (case ?fs1 ?out of None \<Rightarrow> [] | Some old \<Rightarrow> old)
                              @ sections (filter (\<lambda>r. snd r \<noteq> []) rs)))"
        using rest by (simp only: IH if_False)
      also have "\<dots> = Inr (fs(?out \<mapsto> ?old @ sections (filter (\<lambda>r. snd r \<noteq> []) (r # rs))))"
        using False by (simp add: r sections_Cons)
      finally have "append_loop page_range (r # rs) self fs =
          Inr (fs(?out \<mapsto> ?old @ sections (filter (\<lambda>r. snd r \<noteq> []) (r # rs))))"
        by (simp only: step)
      moreover have "filter (\<lambda>r. snd r \<noteq> []) (r # rs) \<noteq> []"
        using False by (simp add: r)
      ultimately show ?thesis by (simp only: if_False)
    qed
  qed
qed

section \<open>The final output file\<close>

lemma final_output_batch:
  assumes "d \<noteq> 0" and "length (batches d rs) < 1000"
    and "\<forall>r\<in>set rs. encodable (snd r)"
  shows "final_output Batch d output_dir pdf_dir page_range rs fs =
      Inr (if batches d rs = [] then fs (final_file output_dir pdf_dir page_range)
           else Some (concat (map (\<lambda>b. universal_newlines (sections (sort_key fst b)))
                                  (batches d rs))))"
proof (cases "batches d rs = []")
  case True
  with process_document_batch [OF assms, of output_dir pdf_dir page_range fs]
  show ?thesis by (simp add: final_output_def)
next
  case False
  with process_document_batch [OF assms, of output_dir pdf_dir page_range fs]
  show ?thesis by (auto simp: final_output_def final_file_init)
qed

lemma final_output_append:
  "\<forall>r\<in>set rs. encodable (snd r) \<Longrightarrow>
   final_output Append d output_dir pdf_dir page_range rs fs =
     Inr (if filter (\<lambda>r. snd r \<noteq> []) rs = [] then fs (final_file output_dir pdf_dir page_range)
          else Some ((case fs (final_file output_dir pdf_dir page_range) of
                        None \<Rightarrow> [] | Some old \<Rightarrow> old)
                     @ sections (filter (\<lambda>r. snd r \<noteq> []) rs)))"
  by (simp add: final_output_def process_document_def append_loop_sections final_file_init)

lemma final_output_batch_empty:
  "final_output Batch d output_dir pdf_dir page_range [] fs =
     Inr (fs (final_file output_dir pdf_dir page_range))"
  by (simp add: final_output_def process_document_def merge_and_cleanup_def init_def)

lemma final_output_batch_sorted:
  assumes "d \<noteq> 0" and "length (batches d rs) < 1000"
    and "\<forall>r\<in>set rs. encodable (snd r)" and "sorted (map fst rs)"
  shows "final_output Batch d output_dir pdf_dir page_range rs fs =
      Inr (if filter (\<lambda>r. snd r \<noteq> []) rs = []
           then fs (final_file output_dir pdf_dir page_range)
           else Some (universal_newlines (sections (filter (\<lambda>r. snd r \<noteq> []) rs))))"
  using final_output_batch [OF assms(1,2,3), of output_dir pdf_dir page_range fs]
    sorted_batches_sections [OF assms(4), of d]
  by (simp add: batches_Nil)

lemma filtered_sections_no_cr:
  "\<forall>r\<in>set rs. 13 \<notin> set (snd r) \<Longrightarrow>
   universal_newlines (sections (filter (\<lambda>r. snd r \<noteq> []) rs)) =
     sections (filter (\<lambda>r. snd r \<noteq> []) rs)"
  by (rule universal_newlines_id) (simp add: sections_no_cr)

section \<open>Batch ordering\<close>

text \<open>
  C1, as the code has it.  For every sequence of results whose texts can be encoded,
  every flush interval other than 0 and fewer than 1000 batches: the non-empty results
  are cut into batches in the order of arrival; every batch is written sorted by page
  number; and the final file is the batches one after the other, in the order in which
  they were closed, each as it is read back from its temporary file (a \<open>'\r\n'\<close> or
  \<open>'\r'\<close> in a text is read back as \<open>'\n'\<close>).  Results are never moved from one batch to
  another.  So when the results arrive in ascending page order, as the loop over the
  range delivers them, the final file is the sections of the non-empty results in
  ascending page order, read back in the same way; it is these sections unchanged
  when no text holds a \<open>'\r'\<close>.  If there is no non-empty result, no file is written.
\<close>

theorem batch_output_order:
  assumes "d \<noteq> 0" and "length (batches d rs) < 1000"
    and "\<forall>r\<in>set rs. encodable (snd r)"
  shows "concat (batches d rs) = filter (\<lambda>r. snd r \<noteq> []) rs
       \<and> final_output Batch d output_dir pdf_dir page_range rs fs =
           Inr (if batches d rs = [] then fs (final_file output_dir pdf_dir page_range)
                else Some (concat (map (\<lambda>b. universal_newlines (sections (sort_key fst b)))
                                       (batches d rs))))
       \<and> (sorted (map fst rs) \<longrightarrow>
            sorted (map fst (filter (\<lambda>r. snd r \<noteq> []) rs))
            \<and> final_output Batch d output_dir pdf_dir page_range rs fs =
                Inr (if filter (\<lambda>r. snd r \<noteq> []) rs = []
                     then fs (final_file output_dir pdf_dir page_range)
                     else Some (universal_newlines
                                  (sections (filter (\<lambda>r. snd r \<noteq> []) rs)))))
       \<and> (sorted (map fst rs) \<and> (\<forall>r\<in>set rs. 13 \<notin> set (snd r)) \<longrightarrow>
            final_output Batch d output_dir pdf_dir page_range rs fs =
              Inr (if filter (\<lambda>r. snd r \<noteq> []) rs = []
                   then fs (final_file output_dir pdf_dir page_range)
                   else Some (sections (filter (\<lambda>r. snd r \<noteq> []) rs))))"
proof -
  have "sorted (map fst (filter (\<lambda>r. snd r \<noteq> []) rs))" if "sorted (map fst rs)"
    using that by (rule sorted_filter)
  moreover have "final_output Batch d output_dir pdf_dir page_range rs fs =
      Inr (if filter (\<lambda>r. snd r \<noteq> []) rs = []
           then fs (final_file output_dir pdf_dir page_range)
           else Some (sections (filter (\<lambda>r. snd r \<noteq> []) rs)))"
    if "sorted (map fst rs)" and "\<forall>r\<in>set rs. 13 \<notin> set (snd r)"
    using final_output_batch_sorted [OF assms that(1), of output_dir pdf_dir page_range fs]
      filtered_sections_no_cr [OF that(2)]
    by simp
  ultimately show ?thesis
    using final_output_batch [OF assms, of output_dir pdf_dir page_range fs]
      final_output_batch_sorted [OF assms, of output_dir pdf_dir page_range fs]
    by (simp add: concat_batches)
qed

lemma batches_example:
  "batches 1 [(1, [97]), (2, []), (3, [98])] = [[(1, [97])], [(3, [98])]]"
  by (simp add: batches_def)

text \<open>
  The theorem at the results of pages 1, 2 and 3, the second one empty, with the flush
  interval 1 and no files beforehand.
\<close>

theorem batch_output_order_witness:
  "final_output Batch 1 [111] [98] [] [(1, [97]), (2, []), (3, [98])] Map.empty =
     Inr (Some (sections [(1, [97]), (3, [98])]))"
proof -
  have d: "(1::int) \<noteq> 0" by simp
  have k: "length (batches 1 [(1, [97]), (2, []), (3, [98])]) < 1000"
    by (simp add: batches_example)
  have e: "\<forall>r\<in>set [(1::int, [97::nat]), (2, []), (3, [98])]. encodable (snd r)"
    by (simp add: encodable_def)
  have s: "sorted (map fst [(1::int, [97::nat]), (2, []), (3, [98])])
           \<and> (\<forall>r\<in>set [(1::int, [97::nat]), (2, []), (3, [98])]. 13 \<notin> set (snd r))"
    by simp
  note batch_output_order
    [OF d k e, of "[111]" "[98]" "[]" Map.empty,
     THEN conjunct2, THEN conjunct2, THEN conjunct2, THEN mp, OF s]
  then show ?thesis by simp
qed

text \<open>
  With the flush interval 1, the result of page 2 arriving before the result of page 1
  stays in front of it: the final file holds the section of page 2 and then the section
  of page 1.
\<close>

theorem batch_output_order_counterexample:
  "final_output Batch 1 [111] [98] [] [(2, [97]), (1, [98])] Map.empty =
     Inr (Some ([10, 61, 61, 61, 32, 31532, 50, 39029, 32, 61, 61, 61, 10, 97, 10]
              @ [10, 61, 61, 61, 32, 31532, 49, 39029, 32, 61, 61, 61, 10, 98, 10]))"
proof -
  have b: "batches 1 [(2, [97]), (1, [98])] = [[(2, [97])], [(1, [98])]]"
    by (simp add: batches_def)
  have d: "(1::int) \<noteq> 0" by simp
  have k: "length (batches 1 [(2, [97]), (1, [98])]) < 1000" by (simp add: b)
  have e: "\<forall>r\<in>set [(2::int, [97::nat]), (1, [98])]. encodable (snd r)"
    by (simp add: encodable_def)
  have "str_nat 2 = [50]" and "str_nat 1 = [49]" by (subst str_nat.simps, simp)+
  then have "sections [(2, [97])] = [10, 61, 61, 61, 32, 31532, 50, 39029, 32, 61, 61, 61, 10, 97, 10]"
    and "sections [(1, [98])] = [10, 61, 61, 61, 32, 31532, 49, 39029, 32, 61, 61, 61, 10, 98, 10]"
    by (simp_all add: sections_def section_text_def str_int_def ascii_def)
  with final_output_batch [OF d k e, of "[111]" "[98]" "[]" Map.empty]
  show ?thesis by (simp add: b)
qed

section \<open>Mode equivalence\<close>

lemma batch_single_interval:
  assumes "sorted (map fst rs)" and "\<forall>r\<in>set rs. encodable (snd r)"
  shows "final_output Batch (int (length rs)) output_dir pdf_dir page_range rs fs =
      Inr (if filter (\<lambda>r. snd r \<noteq> []) rs = []
           then fs (final_file output_dir pdf_dir page_range)
           else Some (universal_newlines (sections (filter (\<lambda>r. snd r \<noteq> []) rs))))"
proof (cases "rs = []")
  case True
  then show ?thesis by (simp add: final_output_batch_empty)
next
  case False
  then have d: "int (length rs) \<noteq> 0" by simp
  have k: "length (batches (int (length rs)) rs) < 1000"
    using batches_single [of rs] by simp
  show ?thesis
    by (rule final_output_batch_sorted [OF d k assms(2,1)])
qed

text \<open>
  C8, as the code has it.  Take the results that the loop over a page range delivers,
  with texts that can be encoded and no final output file there beforehand.  Append
  mode leaves the sections of the non-empty results in page order, each one the header
  line, the text and a newline.  Batch mode with the flush interval equal to the
  number of results leaves the same sections as they are read back from the temporary
  file: every \<open>'\r\n'\<close> and every other \<open>'\r'\<close> of a text has become \<open>'\n'\<close>.  So the two
  final files are the same when no text holds a \<open>'\r'\<close>; and neither mode writes a
  file if every result is empty.
\<close>

theorem mode_equivalence:
  assumes "fs (final_file output_dir pdf_dir (page_range_suffix actual_start actual_end)) = None"
    and "\<forall>r\<in>set (extraction_results extract actual_start actual_end). encodable (snd r)"
  shows "final_output Append d
           output_dir pdf_dir (page_range_suffix actual_start actual_end)
           (extraction_results extract actual_start actual_end) fs
         = Inr (if filter (\<lambda>r. snd r \<noteq> []) (extraction_results extract actual_start actual_end) = []
                then None
                else Some (sections (filter (\<lambda>r. snd r \<noteq> [])
                                      (extraction_results extract actual_start actual_end))))
       \<and> final_output Batch (int (length (extraction_results extract actual_start actual_end)))
           output_dir pdf_dir (page_range_suffix actual_start actual_end)
           (extraction_results extract actual_start actual_end) fs
         = Inr (if filter (\<lambda>r. snd r \<noteq> []) (extraction_results extract actual_start actual_end) = []
                then None
                else Some (universal_newlines
                             (sections (filter (\<lambda>r. snd r \<noteq> [])
                                         (extraction_results extract actual_start actual_end)))))
       \<and> ((\<forall>r\<in>set (extraction_results extract actual_start actual_end). 13 \<notin> set (snd r)) \<longrightarrow>
            final_output Batch (int (length (extraction_results extract actual_start actual_end)))
              output_dir pdf_dir (page_range_suffix actual_start actual_end)
              (extraction_results extract actual_start actual_end) fs
            = final_output Append d
                output_dir pdf_dir (page_range_suffix actual_start actual_end)
                (extraction_results extract actual_start actual_end) fs)"
proof -
  let ?rs = "extraction_results extract actual_start actual_end"
  let ?range = "page_range_suffix actual_start actual_end"
  have a: "final_output Append d output_dir pdf_dir ?range ?rs fs =
      Inr (if filter (\<lambda>r. snd r \<noteq> []) ?rs = [] then None
           else Some (sections (filter (\<lambda>r. snd r \<noteq> []) ?rs)))"
    using assms by (simp add: final_output_append)
  have b: "final_output Batch (int (length ?rs)) output_dir pdf_dir ?range ?rs fs =
      Inr (if filter (\<lambda>r. snd r \<noteq> []) ?rs = [] then None
           else Some (universal_newlines (sections (filter (\<lambda>r. snd r \<noteq> []) ?rs))))"
    using batch_single_interval [OF sorted_extraction_results assms(2), of output_dir pdf_dir ?range fs]
      assms(1)
    by simp
  have "final_output Batch (int (length ?rs)) output_dir pdf_dir ?range ?rs fs =
      final_output Append d output_dir pdf_dir ?range ?rs fs"
    if "\<forall>r\<in>set ?rs. 13 \<notin> set (snd r)"
    using a b filtered_sections_no_cr [OF that] by simp
  with a b show ?thesis by blast
qed

text \<open>
  The theorem at pages 1 to 3, where page 2 has no file, starting from no files.
\<close>

theorem mode_equivalence_witness:
  "final_output Batch 2 [111] [98] (page_range_suffix 1 3)
     (extraction_results [1 \<mapsto> [97], 3 \<mapsto> [98]] 1 3) Map.empty
   = final_output Append 10 [111] [98] (page_range_suffix 1 3)
       (extraction_results [1 \<mapsto> [97], 3 \<mapsto> [98]] 1 3) Map.empty
   \<and> extraction_results [1 \<mapsto> [97], 3 \<mapsto> [98]] 1 3 = [(1, [97]), (3, [98])]"
proof -
  have r: "extraction_results [1 \<mapsto> [97], 3 \<mapsto> [98]] 1 3 = [(1, [97]), (3, [98])]"
    by (simp add: extraction_results_def upto_rec1)
  have f: "Map.empty (final_file [111] [98] (page_range_suffix 1 3)) = (None :: pystr option)"
    by simp
  have e: "\<forall>r\<in>set (extraction_results [1 \<mapsto> [97], 3 \<mapsto> [98]] 1 3). encodable (snd r)"
    by (simp add: r encodable_def)
  have c: "\<forall>r\<in>set (extraction_results [1 \<mapsto> [97], 3 \<mapsto> [98]] 1 3). 13 \<notin> set (snd r)"
    by (simp add: r)
  note mode_equivalence
    [of Map.empty "[111]" "[98]" 1 3 "[1 \<mapsto> [97], 3 \<mapsto> [98]]" 10, OF f e,
     THEN conjunct2, THEN conjunct2, THEN mp, OF c]
  with r show ?thesis by simp
qed

text \<open>
  One result for page 1 with the text \<open>"a\rb"\<close>, the flush interval 1 and no files
  beforehand: append mode writes the \<open>'\r'\<close>, batch mode leaves a \<open>'\n'\<close> in its place.
  And with the text \<open>"a"\<close> and a final output file holding \<open>"x"\<close> beforehand, append mode
  keeps the \<open>"x"\<close> in front and batch mode does not.
\<close>

theorem mode_equivalence_counterexample:
  "final_output Append 1 [111] [98] [] [(1, [97, 13, 98])] Map.empty =
     Inr (Some [10, 61, 61, 61, 32, 31532, 49, 39029, 32, 61, 61, 61, 10, 97, 13, 98, 10])
   \<and> final_output Batch 1 [111] [98] [] [(1, [97, 13, 98])] Map.empty =
     Inr (Some [10, 61, 61, 61, 32, 31532, 49, 39029, 32, 61, 61, 61, 10, 97, 10, 98, 10])
   \<and> final_output Append 1 [111] [98] [] [(1, [97])] [final_file [111] [98] [] \<mapsto> [120]] =
     Inr (Some [120, 10, 61, 61, 61, 32, 31532, 49, 39029, 32, 61, 61, 61, 10, 97, 10])
   \<and> final_output Batch 1 [111] [98] [] [(1, [97])] [final_file [111] [98] [] \<mapsto> [120]] =
     Inr (Some [10, 61, 61, 61, 32, 31532, 49, 39029, 32, 61, 61, 61, 10, 97, 10])"
proof -
  have one: "str_nat 1 = [49]" by (subst str_nat.simps) simp
  have s1: "sections [(1, [97, 13, 98])] =
      [10, 61, 61, 61, 32, 31532, 49, 39029, 32, 61, 61, 61, 10, 97, 13, 98, 10]"
    and s2: "sections [(1, [97])] =
      [10, 61, 61, 61, 32, 31532, 49, 39029, 32, 61, 61, 61, 10, 97, 10]"
    using one by (simp_all add: sections_def section_text_def str_int_def ascii_def)
  have d: "(1::int) \<noteq> 0" by simp
  have b1: "batches 1 [(1, [97, 13, 98])] = [[(1, [97, 13, 98])]]"
    and b2: "batches 1 [(1, [97])] = [[(1, [97])]]"
    by (simp_all add: batches_def)
  have k1: "length (batches 1 [(1, [97, 13, 98])]) < 1000"
    and k2: "length (batches 1 [(1, [97])]) < 1000"
    by (simp_all add: b1 b2)
  have e1: "\<forall>r\<in>set [(1::int, [97, 13, 98::nat])]. encodable (snd r)"
    and e2: "\<forall>r\<in>set [(1::int, [97::nat])]. encodable (snd r)"
    by (simp_all add: encodable_def)
  have "final_output Append 1 [111] [98] [] [(1, [97, 13, 98])] Map.empty =
      Inr (Some [10, 61, 61, 61, 32, 31532, 49, 39029, 32, 61, 61, 61, 10, 97, 13, 98, 10])"
    using final_output_append [OF e1, of 1 "[111]" "[98]" "[]" Map.empty] by (simp add: s1)
  moreover have "final_output Batch 1 [111] [98] [] [(1, [97, 13, 98])] Map.empty =
      Inr (Some [10, 61, 61, 61, 32, 31532, 49, 39029, 32, 61, 61, 61, 10, 97, 10, 98, 10])"
    using final_output_batch [OF d k1 e1, of "[111]" "[98]" "[]" Map.empty]
    by (simp add: b1 s1)
  moreover have "final_output Append 1 [111] [98] [] [(1, [97])]
        [final_file [111] [98] [] \<mapsto> [120]] =
      Inr (Some [120, 10, 61, 61, 61, 32, 31532, 49, 39029, 32, 61, 61, 61, 10, 97, 10])"
    using final_output_append
      [OF e2, of 1 "[111]" "[98]" "[]" "[final_file [111] [98] [] \<mapsto> [120]]"]
    by (simp add: s2)
  moreover have "final_output Batch 1 [111] [98] [] [(1, [97])]
        [final_file [111] [98] [] \<mapsto> [120]] =
      Inr (Some [10, 61, 61, 61, 32, 31532, 49, 39029, 32, 61, 61, 61, 10, 97, 10])"
    using final_output_batch
      [OF d k2 e2, of "[111]" "[98]" "[]" "[final_file [111] [98] [] \<mapsto> [120]]"]
    by (simp add: b2 s2)
  ultimately show ?thesis by (simp only: simp_thms)
qed

section \<open>Nothing to write\<close>

text \<open>
  C10: when every extraction result of a run is the empty string, neither mode creates
  or changes any file: append mode leaves the files as they are, and so does batch mode
  for every flush interval other than 0, since nothing is ever added to a batch and
  the merge returns at once.  (With the interval 0 the first iteration of batch mode
  raises before anything is written.)
\<close>

theorem empty_results_no_output:
  assumes "\<forall>r\<in>set rs. snd r = []"
  shows "process_document Append d output_dir pdf_dir page_range rs fs = Inr fs
       \<and> (d \<noteq> 0 \<longrightarrow> process_document Batch d output_dir pdf_dir page_range rs fs = Inr fs)
       \<and> (d = 0 \<and> rs \<noteq> [] \<longrightarrow>
            process_document Batch d output_dir pdf_dir page_range rs fs = Inl ZeroDivisionError)"
proof -
  have none: "filter (\<lambda>r. snd r \<noteq> []) rs = []"
    using assms by (simp add: filter_empty_conv)
  have enc: "\<forall>r\<in>set rs. encodable (snd r)"
    using assms by (simp add: encodable_def)
  have "process_document Append d output_dir pdf_dir page_range rs fs = Inr fs"
    by (simp add: process_document_def append_loop_sections [OF enc] none)
  moreover have "process_document Batch d output_dir pdf_dir page_range rs fs = Inr fs"
    if "d \<noteq> 0"
  proof -
    have b: "batches d rs = []" using none by (simp add: batches_Nil)
    then have "length (batches d rs) < 1000" by simp
    from process_document_batch [OF that this enc, of output_dir pdf_dir page_range fs] b
    show ?thesis by simp
  qed
  moreover have "process_document Batch d output_dir pdf_dir page_range rs fs =
      Inl ZeroDivisionError" if z: "d = 0" and ne: "rs \<noteq> []"
  proof -
    obtain r rest where "rs = r # rest" using ne by (cases rs) auto
    then show ?thesis using z by (cases r) (simp add: process_document_def Let_def)
  qed
  ultimately show ?thesis by simp
qed

text \<open>The theorem at two empty results, with the flush interval 2 and no files beforehand.\<close>

theorem empty_results_no_output_witness:
  "process_document Append 2 [111] [98] [] [(1, []), (2, [])] Map.empty = Inr Map.empty
   \<and> process_document Batch 2 [111] [98] [] [(1, []), (2, [])] Map.empty = Inr Map.empty"
proof -
  have e: "\<forall>r\<in>set [(1::int, [] :: pystr), (2, [])]. snd r = []" by simp
  from empty_results_no_output [OF e, of 2 "[111]" "[98]" "[]" Map.empty]
  show ?thesis by simp
qed

end
